theory Spec2Isabelle
  imports Main "HOL-Library.FSet" "HOL-Library.Sublist" "HOL-Library.Multiset"
begin

section \<open>The dead-link scraper: data model\<close>

text \<open>
  The development embeds the class \<^verbatim>\<open>WebsiteDeadlinkScraper\<close> of
  \<^verbatim>\<open>website_deadlink_scraper.py\<close>.  The object's attributes are the fields of the
  record \<open>scraper\<close>; every method takes the object and returns it updated.

  What the program does to the outside world is kept in the same record: the two CSV
  files, the status line written to standard output, the error log, the HTTP requests it
  sends, and a \<open>clock\<close> counting the calls made to the outside world so far (a request
  or a reading of the time).  The outside world itself is the record \<open>env\<close>: what a GET
  and a HEAD answer at a given moment, what time it is at a given moment, and the two
  functions of \<^verbatim>\<open>urllib.parse\<close> the program calls.  A library call that raises is a
  value \<open>Inl\<close> of the class of the exception, as far as the handlers of the program
  tell classes apart.  Writing to the files, to the status line and to the log does not
  fail.

  The ten worker threads of \<^verbatim>\<open>start_scraping\<close> are serialised: the calls of
  \<^verbatim>\<open>scrape_page\<close> of one batch run one after the other, in the order of submission,
  and their results are collected in that order.
  Where a statement below compares two traces of a crawl, it compares them as
  multisets, since the order of the calls within a batch is that of this serialisation.
\<close>

datatype exn = RequestException | OtherException

datatype request = GET string | HEAD string

datatype message = Scanning string nat | QueueSize nat | Completed

record progress =
  scanned :: nat
  found :: nat
  max_depth_seen :: nat
  msg :: message

datatype log_record = ErrorScanning string | Summary nat nat nat

record env =
  http_get :: "nat \<Rightarrow> string \<Rightarrow> exn + string list"
  http_head :: "nat \<Rightarrow> string \<Rightarrow> exn + nat"
  now :: "nat \<Rightarrow> int"
  urljoin :: "string \<Rightarrow> string \<Rightarrow> exn + string"
  netloc :: "string \<Rightarrow> exn + string"

record scraper =
  max_pages :: nat
  max_depth :: nat
  visited_urls :: "string fset"
  deadlinks :: "(string \<times> string) list"
  current_depth :: nat
  base_url :: string
  history_df :: "(string \<times> int) list"
  results_file :: "(string \<times> string) list"
  history_file :: "(string \<times> int) list"
  stdout :: "progress list"
  logger :: "log_record list"
  requests :: "request list"
  clock :: nat

section \<open>Construction\<close>

text \<open>
  \<^verbatim>\<open>__init__\<close> and \<^verbatim>\<open>setup\<close>, from the point where \<^verbatim>\<open>format_and_verify_url\<close> has
  returned the normalised base URL \<open>url\<close> and \<^verbatim>\<open>create_folder_and_files\<close> has made sure
  that both files exist; \<open>results\<close> and \<open>history\<close> are the rows they hold.
\<close>

definition load_history :: "scraper \<Rightarrow> scraper" where
  "load_history s = s\<lparr>history_df := history_file s\<rparr>"

definition load_existing_results :: "scraper \<Rightarrow> scraper" where
  "load_existing_results s = s\<lparr>deadlinks := results_file s\<rparr>"

definition setup_scraper :: "scraper \<Rightarrow> scraper" where
  "setup_scraper s = load_existing_results (load_history s)"

definition init :: "string \<Rightarrow> (string \<times> string) list \<Rightarrow> (string \<times> int) list \<Rightarrow> scraper" where
  "init url results history =
     setup_scraper \<lparr>max_pages = 10000, max_depth = 20, visited_urls = {||}, deadlinks = [],
            current_depth = 0, base_url = url, history_df = [],
            results_file = results, history_file = history,
            stdout = [], logger = [], requests = [], clock = 0\<rparr>"

section \<open>The methods\<close>

text \<open>\<^verbatim>\<open>str.endswith\<close>: \<open>h\<close> ends with \<open>b\<close>.\<close>

definition endswith :: "string \<Rightarrow> string \<Rightarrow> bool" where
  "endswith h b = (length b \<le> length h \<and> drop (length h - length b) h = b)"

definition is_valid_url :: "env \<Rightarrow> scraper \<Rightarrow> string \<Rightarrow> exn + bool" where
  "is_valid_url env s url =
     (case netloc env url of
        Inl e \<Rightarrow> Inl e
      | Inr parsed \<Rightarrow>
          (case netloc env (base_url s) of
             Inl e \<Rightarrow> Inl e
           | Inr base_parsed \<Rightarrow> Inr (parsed = base_parsed \<or> endswith parsed base_parsed)))"

text \<open>
  \<^verbatim>\<open>check_link\<close> sends one HEAD request.  Only \<^verbatim>\<open>requests.RequestException\<close> is
  handled; any other exception leaves the method.
\<close>

definition check_link :: "env \<Rightarrow> scraper \<Rightarrow> string \<Rightarrow> (exn + bool) \<times> scraper" where
  "check_link env s url =
     (let s1 = s\<lparr>requests := requests s @ [HEAD url], clock := clock s + 1\<rparr>
      in case http_head env (clock s) url of
           Inr status_code \<Rightarrow> (Inr (status_code \<noteq> 200), s1)
         | Inl RequestException \<Rightarrow> (Inr True, s1)
         | Inl OtherException \<Rightarrow> (Inl OtherException, s1))"

definition save_result :: "scraper \<Rightarrow> string \<times> string \<Rightarrow> scraper" where
  "save_result s result = s\<lparr>results_file := results_file s @ [result]\<rparr>"

definition save_history :: "scraper \<Rightarrow> scraper" where
  "save_history s = s\<lparr>history_file := history_df s\<rparr>"

definition update_history :: "env \<Rightarrow> scraper \<Rightarrow> string \<Rightarrow> scraper" where
  "update_history env s url =
     (let t = now env (clock s);
          s1 = s\<lparr>clock := clock s + 1\<rparr>
      in save_history
           (if url \<in> fst ` set (history_df s1)
            then s1\<lparr>history_df := map (\<lambda>(u, last). if u = url then (u, t) else (u, last))
                                     (history_df s1)\<rparr>
            else s1\<lparr>history_df := history_df s1 @ [(url, t)]\<rparr>))"

definition update_progress :: "scraper \<Rightarrow> message \<Rightarrow> scraper" where
  "update_progress s m =
     s\<lparr>stdout := stdout s @
        [\<lparr>scanned = fcard (visited_urls s), found = length (deadlinks s),
          max_depth_seen = current_depth s, msg = m\<rparr>]\<rparr>"

text \<open>The rescan window, \<^verbatim>\<open>timedelta(days=14)\<close>, in microseconds.\<close>

definition rescan_window :: int where
  "rescan_window = 14 * 86400 * 1000000"

text \<open>
  The body of the \<^verbatim>\<open>for\<close> loop of \<^verbatim>\<open>scrape_page\<close> over the \<^verbatim>\<open>href\<close>s of the page,
  with the list \<^verbatim>\<open>internal_links\<close> built so far.  An exception ends the loop; what the
  loop has done to the object by then stays done.
\<close>

fun scan_links ::
  "env \<Rightarrow> string \<Rightarrow> nat \<Rightarrow> string list \<Rightarrow> (string \<times> nat) list \<Rightarrow> scraper
     \<Rightarrow> (exn + (string \<times> nat) list) \<times> scraper" where
  "scan_links env url depth [] internal_links s = (Inr internal_links, s)"
| "scan_links env url depth (href # hrefs) internal_links s =
     (case urljoin env url href of
        Inl e \<Rightarrow> (Inl e, s)
      | Inr full_url \<Rightarrow>
          (case is_valid_url env s full_url of
             Inl e \<Rightarrow> (Inl e, s)
           | Inr False \<Rightarrow> scan_links env url depth hrefs internal_links s
           | Inr True \<Rightarrow>
               (case check_link env s full_url of
                  (Inl e, s1) \<Rightarrow> (Inl e, s1)
                | (Inr True, s1) \<Rightarrow>
                    scan_links env url depth hrefs internal_links
                      (save_result (s1\<lparr>deadlinks := deadlinks s1 @ [(url, full_url)]\<rparr>)
                         (url, full_url))
                | (Inr False, s1) \<Rightarrow>
                    (if full_url |\<notin>| visited_urls s1
                     then scan_links env url depth hrefs
                            (internal_links @ [(full_url, depth + 1)]) s1
                     else scan_links env url depth hrefs internal_links s1))))"

text \<open>
  The \<^verbatim>\<open>try\<close> block of \<^verbatim>\<open>scrape_page\<close>: the GET, the loop over the links, the update
  of the history; \<^verbatim>\<open>except Exception\<close> logs and returns the empty list.
\<close>

definition fetch_and_scan :: "env \<Rightarrow> scraper \<Rightarrow> string \<Rightarrow> nat \<Rightarrow> (string \<times> nat) list \<times> scraper" where
  "fetch_and_scan env s url depth =
     (let s1 = s\<lparr>requests := requests s @ [GET url], clock := clock s + 1\<rparr>
      in case http_get env (clock s) url of
           Inl e \<Rightarrow> ([], s1\<lparr>logger := logger s1 @ [ErrorScanning url]\<rparr>)
         | Inr hrefs \<Rightarrow>
             (case scan_links env url depth hrefs [] s1 of
                (Inl e, s2) \<Rightarrow> ([], s2\<lparr>logger := logger s2 @ [ErrorScanning url]\<rparr>)
              | (Inr internal_links, s2) \<Rightarrow> (internal_links, update_history env s2 url)))"

text \<open>
  The test of lines 121 to 124: the scan is not forced, the page is in the history, and
  its first row there is younger than the window.  The time is read only when the scan
  is not forced and the page is in the history.
\<close>

definition scanned_recently :: "env \<Rightarrow> scraper \<Rightarrow> string \<Rightarrow> bool \<Rightarrow> bool \<times> scraper" where
  "scanned_recently env s url force_scan =
     (if force_scan then (False, s)
      else case map_of (history_df s) url of
             None \<Rightarrow> (False, s)
           | Some last_scanned \<Rightarrow>
               (now env (clock s) - last_scanned < rescan_window, s\<lparr>clock := clock s + 1\<rparr>))"

definition scrape_page ::
  "env \<Rightarrow> scraper \<Rightarrow> string \<Rightarrow> nat \<Rightarrow> bool \<Rightarrow> (string \<times> nat) list \<times> scraper" where
  "scrape_page env s url depth force_scan =
     (if url |\<in>| visited_urls s \<or> depth > max_depth s then ([], s)
      else
        let s1 = s\<lparr>visited_urls := finsert url (visited_urls s),
                   current_depth := max (current_depth s) depth\<rparr>
        in case scanned_recently env s1 url force_scan of
             (True, s2) \<Rightarrow> ([], s2)
           | (False, s2) \<Rightarrow> fetch_and_scan env (update_progress s2 (Scanning url depth)) url depth)"

text \<open>One batch: the entries are dispatched in order, and their results collected.\<close>

fun run_batch :: "env \<Rightarrow> (string \<times> nat) list \<Rightarrow> scraper \<Rightarrow> (string \<times> nat) list \<times> scraper" where
  "run_batch env [] s = ([], s)"
| "run_batch env ((url, depth) # batch) s =
     (let (new_links, s1) = scrape_page env s url depth (url = base_url s);
          (more_links, s2) = run_batch env batch s1
      in (new_links @ more_links, s2))"

definition loop_body :: "env \<Rightarrow> (string \<times> nat) list \<times> scraper \<Rightarrow> (string \<times> nat) list \<times> scraper" where
  "loop_body env c =
     (let (to_visit, s) = c;
          batch = take 10 to_visit;
          rest = drop 10 to_visit;
          (new_links, s1) = run_batch env batch s;
          to_visit' = rest @ new_links
      in (to_visit', update_progress s1 (QueueSize (length to_visit'))))"

section \<open>What the methods leave alone\<close>

text \<open>
  The loop of \<^verbatim>\<open>start_scraping\<close> ends because a batch either adds a page to
  \<^verbatim>\<open>visited_urls\<close> or returns no link; the facts that say so come first.
\<close>

lemma check_link_frame:
  "check_link env s u = (r, s') \<Longrightarrow> s' = s\<lparr>requests := requests s @ [HEAD u], clock := clock s + 1\<rparr>"
  by (auto simp: check_link_def Let_def split: sum.splits exn.splits)

lemma scan_links_frame:
  "scan_links env url d hs acc s = (r, s') \<Longrightarrow>
     max_pages s' = max_pages s \<and> max_depth s' = max_depth s \<and>
     visited_urls s' = visited_urls s \<and> current_depth s' = current_depth s \<and>
     base_url s' = base_url s \<and> history_df s' = history_df s \<and>
     history_file s' = history_file s \<and> stdout s' = stdout s \<and> logger s' = logger s"
proof (induction hs arbitrary: acc s)
  case Nil
  then show ?case by simp
next
  case (Cons h hs)
  then show ?case
    by (auto simp: save_result_def is_valid_url_def split: sum.splits bool.splits prod.splits if_splits dest!: check_link_frame)
qed

lemma update_history_frame:
  "max_pages (update_history env s u) = max_pages s"
  "max_depth (update_history env s u) = max_depth s"
  "visited_urls (update_history env s u) = visited_urls s"
  "current_depth (update_history env s u) = current_depth s"
  "base_url (update_history env s u) = base_url s"
  "stdout (update_history env s u) = stdout s"
  "deadlinks (update_history env s u) = deadlinks s"
  "results_file (update_history env s u) = results_file s"
  "requests (update_history env s u) = requests s"
  "logger (update_history env s u) = logger s"
  by (simp_all add: update_history_def save_history_def Let_def)

lemma fetch_and_scan_frame:
  "fetch_and_scan env s url d = (ls, s') \<Longrightarrow>
     max_pages s' = max_pages s \<and> max_depth s' = max_depth s \<and>
     visited_urls s' = visited_urls s \<and> current_depth s' = current_depth s \<and>
     base_url s' = base_url s \<and> stdout s' = stdout s"
  by (auto simp: fetch_and_scan_def Let_def update_history_frame
           split: sum.splits prod.splits dest!: scan_links_frame)


lemma scanned_recently_frame:
  "scanned_recently env s url f = (b, s') \<Longrightarrow> s' = s \<or> s' = s\<lparr>clock := clock s + 1\<rparr>"
  by (auto simp: scanned_recently_def split: if_splits option.splits)

lemma scrape_page_cases:
  assumes "scrape_page env s url d f = (ls, s')"
  obtains (dropped) "url |\<in>| visited_urls s \<or> max_depth s < d" "ls = []" "s' = s"
  | (skipped) s1 where "url |\<notin>| visited_urls s" "d \<le> max_depth s"
      "s1 = s\<lparr>visited_urls := finsert url (visited_urls s),
               current_depth := max (current_depth s) d\<rparr>"
      "scanned_recently env s1 url f = (True, s')" "ls = []"
  | (fetched) s1 s2 where "url |\<notin>| visited_urls s" "d \<le> max_depth s"
      "s1 = s\<lparr>visited_urls := finsert url (visited_urls s),
               current_depth := max (current_depth s) d\<rparr>"
      "scanned_recently env s1 url f = (False, s2)"
      "fetch_and_scan env (update_progress s2 (Scanning url d)) url d = (ls, s')"
proof (cases "url |\<in>| visited_urls s \<or> max_depth s < d")
  case True
  with assms have "ls = []" "s' = s" by (simp_all add: scrape_page_def)
  with True show ?thesis by (rule dropped)
next
  case False
  define s1 where "s1 = s\<lparr>visited_urls := finsert url (visited_urls s),
               current_depth := max (current_depth s) d\<rparr>"
  obtain b s2 where sr: "scanned_recently env s1 url f = (b, s2)" by (cases "scanned_recently env s1 url f")
  show ?thesis
  proof (cases b)
    case True
    with assms False sr s1_def have "ls = []" "s' = s2"
      by (simp_all add: scrape_page_def Let_def)
    with False sr s1_def True show ?thesis by (intro skipped [of s1]) simp_all
  next
    case b: False
    with assms False sr s1_def
    have "fetch_and_scan env (update_progress s2 (Scanning url d)) url d = (ls, s')"
      by (simp add: scrape_page_def Let_def)
    with False sr s1_def b show ?thesis by (intro fetched [of s1 s2]) simp_all
  qed
qed



lemma scanned_recently_fields:
  assumes "scanned_recently env s url f = (b, s')"
  shows "max_pages s' = max_pages s" "max_depth s' = max_depth s"
    "visited_urls s' = visited_urls s" "current_depth s' = current_depth s"
    "base_url s' = base_url s" "stdout s' = stdout s" "deadlinks s' = deadlinks s"
    "results_file s' = results_file s" "requests s' = requests s" "logger s' = logger s"
    "history_df s' = history_df s" "history_file s' = history_file s"
  using scanned_recently_frame [OF assms] by auto

lemma scrape_page_frame:
  assumes "scrape_page env s url d f = (ls, s')"
  shows "max_pages s' = max_pages s \<and> max_depth s' = max_depth s \<and> base_url s' = base_url s"
  using assms
proof (cases rule: scrape_page_cases)
  case dropped
  then show ?thesis by simp
next
  case (skipped s1)
  show ?thesis
    by (simp add: scanned_recently_fields [OF skipped(4)] skipped(3))
next
  case (fetched s1 s2)
  show ?thesis
    by (simp add: fetch_and_scan_frame [OF fetched(5)] update_progress_def
          scanned_recently_fields [OF fetched(4)] fetched(3))
qed

lemma scrape_page_visited:
  assumes "scrape_page env s url d f = (ls, s')"
  shows "if url |\<in>| visited_urls s \<or> max_depth s < d then ls = [] \<and> s' = s
         else visited_urls s' = finsert url (visited_urls s)"
  using assms
proof (cases rule: scrape_page_cases)
  case dropped
  then show ?thesis by simp
next
  case (skipped s1)
  have "visited_urls s' = finsert url (visited_urls s)"
    by (simp add: scanned_recently_fields [OF skipped(4)] skipped(3))
  with skipped(1,2) show ?thesis by simp
next
  case (fetched s1 s2)
  have "visited_urls s' = finsert url (visited_urls s)"
    by (simp add: fetch_and_scan_frame [OF fetched(5)] update_progress_def
          scanned_recently_fields [OF fetched(4)] fetched(3))
  with fetched(1,2) show ?thesis by simp
qed

lemma run_batch_Cons:
  assumes "run_batch env ((url, d) # batch) s = (ls, s')"
  obtains l1 s1 l2 where "scrape_page env s url d (url = base_url s) = (l1, s1)"
    "run_batch env batch s1 = (l2, s')" "ls = l1 @ l2"
proof -
  obtain l1 s1 where sp: "scrape_page env s url d (url = base_url s) = (l1, s1)"
    by (cases "scrape_page env s url d (url = base_url s)")
  obtain l2 s2 where rb: "run_batch env batch s1 = (l2, s2)"
    by (cases "run_batch env batch s1")
  from assms sp rb have "s' = s2" "ls = l1 @ l2" by simp_all
  with sp rb that show ?thesis by simp
qed

lemma run_batch_frame:
  "run_batch env batch s = (ls, s') \<Longrightarrow>
     max_pages s' = max_pages s \<and> max_depth s' = max_depth s \<and> base_url s' = base_url s"
proof (induction batch arbitrary: s ls)
  case Nil
  then show ?case by simp
next
  case (Cons e batch)
  obtain url d where e: "e = (url, d)" by (cases e)
  from Cons.prems [unfolded e] show ?case
  proof (cases rule: run_batch_Cons)
    case (1 l1 s1 l2)
    with Cons.IH [OF 1(2)] scrape_page_frame [OF 1(1)] show ?thesis by simp
  qed
qed

lemma run_batch_visited:
  "run_batch env batch s = (ls, s') \<Longrightarrow>
     visited_urls s |\<subseteq>| visited_urls s' \<and>
     fcard (visited_urls s') \<le> fcard (visited_urls s) + length batch \<and>
     (fcard (visited_urls s') = fcard (visited_urls s) \<longrightarrow> ls = [])"
proof (induction batch arbitrary: s ls)
  case Nil
  then show ?case by simp
next
  case (Cons e batch)
  obtain url d where e: "e = (url, d)" by (cases e)
  from Cons.prems [unfolded e] show ?case
  proof (cases rule: run_batch_Cons)
    case (1 l1 s1 l2)
    note ih = Cons.IH [OF 1(2)]
    show ?thesis
    proof (cases "url |\<in>| visited_urls s \<or> max_depth s < d")
      case True
      with scrape_page_visited [OF 1(1)] have "l1 = []" "s1 = s" by simp_all
      with ih 1(3) show ?thesis by auto
    next
      case False
      with scrape_page_visited [OF 1(1)] have v: "visited_urls s1 = finsert url (visited_urls s)"
        by simp
      from False have "url |\<notin>| visited_urls s" by simp
      with v have c: "fcard (visited_urls s1) = Suc (fcard (visited_urls s))"
        by (simp add: fcard_finsert_disjoint)
      from ih have "fcard (visited_urls s1) \<le> fcard (visited_urls s')"
        by (simp add: fcard_mono)
      with c ih v show ?thesis by auto
    qed
  qed
qed

section \<open>The crawl\<close>

text \<open>
  The \<^verbatim>\<open>while\<close> loop of \<^verbatim>\<open>start_scraping\<close>, on the queue \<^verbatim>\<open>to_visit\<close> and the
  object.
\<close>

function start_loop :: "env \<Rightarrow> (string \<times> nat) list \<times> scraper \<Rightarrow> (string \<times> nat) list \<times> scraper" where
  "start_loop env (to_visit, s) =
     (if to_visit \<noteq> [] \<and> fcard (visited_urls s) < max_pages s
      then start_loop env (loop_body env (to_visit, s))
      else (to_visit, s))"
  by pat_completeness auto
termination
proof (relation "measures [\<lambda>(env, to_visit, s). max_pages s - fcard (visited_urls s),
                           \<lambda>(env, to_visit, s). length to_visit]")
  show "wf (measures [\<lambda>(env, to_visit, s). max_pages s - fcard (visited_urls s),
                      \<lambda>(env, to_visit, s). length to_visit])"
    by simp
next
  fix env :: env and to_visit :: "(string \<times> nat) list" and s :: scraper
  assume guard: "to_visit \<noteq> [] \<and> fcard (visited_urls s) < max_pages s"
  obtain ls s1 where rb: "run_batch env (take 10 to_visit) s = (ls, s1)"
    by (cases "run_batch env (take 10 to_visit) s")
  have body: "loop_body env (to_visit, s) =
      (drop 10 to_visit @ ls, update_progress s1 (QueueSize (length (drop 10 to_visit @ ls))))"
    by (simp add: loop_body_def Let_def rb)
  from run_batch_frame [OF rb] have mp: "max_pages s1 = max_pages s" by simp
  note v = run_batch_visited [OF rb]
  show "((env, loop_body env (to_visit, s)), (env, to_visit, s))
        \<in> measures [\<lambda>(env, to_visit, s). max_pages s - fcard (visited_urls s),
                     \<lambda>(env, to_visit, s). length to_visit]"
  proof (cases "fcard (visited_urls s1) = fcard (visited_urls s)")
    case True
    with v have "ls = []" by simp
    with guard True mp show ?thesis by (simp add: body update_progress_def)
  next
    case False
    with v have "fcard (visited_urls s) < fcard (visited_urls s1)"
      by (simp add: fcard_mono le_neq_implies_less)
    with guard have "max_pages s - fcard (visited_urls s1) < max_pages s - fcard (visited_urls s)"
      by arith
    with mp show ?thesis by (simp add: body update_progress_def)
  qed
qed

definition start_scraping :: "env \<Rightarrow> scraper \<Rightarrow> scraper" where
  "start_scraping env s =
     (let (to_visit, s1) = start_loop env ([(base_url s, 0)], s);
          s2 = update_progress s1 Completed
      in s2\<lparr>logger := logger s2 @
            [Summary (fcard (visited_urls s2)) (length (deadlinks s2)) (current_depth s2)]\<rparr>)"

declare start_loop.simps [simp del]



section \<open>Invariants of the crawl\<close>

text \<open>
  The loop stops at once on an empty queue or a full set of visited pages, and otherwise
  runs its body.  A property of the object and the queue that the body keeps holds after
  the loop; and a property \<open>I\<close> of the object, with a property \<open>F\<close> of the entries of
  the queue, that \<^verbatim>\<open>scrape_page\<close> keeps is kept by the batch, the loop and the crawl.
\<close>

lemma start_loop_stop:
  "to_visit = [] \<or> max_pages s \<le> fcard (visited_urls s)
   \<Longrightarrow> start_loop env (to_visit, s) = (to_visit, s)"
  by (subst start_loop.simps) auto

lemma start_loop_step:
  "to_visit \<noteq> [] \<Longrightarrow> fcard (visited_urls s) < max_pages s
   \<Longrightarrow> start_loop env (to_visit, s) = start_loop env (loop_body env (to_visit, s))"
  by (subst start_loop.simps) simp

lemma start_loop_rule:
  assumes inv: "\<And>to_visit s. \<lbrakk>P (to_visit, s); to_visit \<noteq> []; fcard (visited_urls s) < max_pages s\<rbrakk>
                  \<Longrightarrow> P (loop_body env (to_visit, s))"
    and init: "P c"
  shows "P (start_loop env c)"
proof -
  have "env' = env \<Longrightarrow> P c \<Longrightarrow> P (start_loop env' c)" for env'
  proof (induction env' c rule: start_loop.induct)
    case (1 env' to_visit s)
    from "1.prems" have e: "env' = env" by simp
    show ?case
    proof (cases "to_visit \<noteq> [] \<and> fcard (visited_urls s) < max_pages s")
      case True
      with inv "1.prems" have "P (loop_body env (to_visit, s))" by simp
      with "1.IH" True e have "P (start_loop env (loop_body env (to_visit, s)))"
        by simp
      with True show ?thesis unfolding e by (simp add: start_loop_step)
    next
      case False
      then have "to_visit = [] \<or> max_pages s \<le> fcard (visited_urls s)" by auto
      with "1.prems" show ?thesis unfolding e by (simp add: start_loop_stop)
    qed
  qed
  with init show ?thesis by simp
qed

lemma run_batch_rule:
  assumes step: "\<And>s url d ls s'. \<lbrakk>I s; F (url, d);
                    scrape_page env s url d (url = base_url s) = (ls, s')\<rbrakk>
                  \<Longrightarrow> I s' \<and> (\<forall>e\<in>set ls. F e)"
  shows "I s \<Longrightarrow> \<forall>e\<in>set batch. F e \<Longrightarrow> run_batch env batch s = (ls, s')
         \<Longrightarrow> I s' \<and> (\<forall>e\<in>set ls. F e)"
proof (induction batch arbitrary: s ls)
  case Nil
  then show ?case by simp
next
  case (Cons e batch)
  obtain url d where e: "e = (url, d)" by (cases e)
  from Cons.prems(3) [unfolded e] show ?case
  proof (cases rule: run_batch_Cons)
    case (1 l1 s1 l2)
    from Cons.prems(2) e have "F (url, d)" by simp
    from step [OF Cons.prems(1) this 1(1)] have s1: "I s1" and l1: "\<forall>e\<in>set l1. F e"
      by simp_all
    from Cons.prems(2) have "\<forall>e\<in>set batch. F e" by simp
    from Cons.IH [OF s1 this 1(2)] l1 1(3) show ?thesis by auto
  qed
qed

lemma loop_body_rule:
  assumes step: "\<And>s url d ls s'. \<lbrakk>I s; F (url, d);
                    scrape_page env s url d (url = base_url s) = (ls, s')\<rbrakk>
                  \<Longrightarrow> I s' \<and> (\<forall>e\<in>set ls. F e)"
    and prog: "\<And>s n. I s \<Longrightarrow> I (update_progress s (QueueSize n))"
    and "I s" "\<forall>e\<in>set to_visit. F e"
  shows "I (snd (loop_body env (to_visit, s))) \<and> (\<forall>e\<in>set (fst (loop_body env (to_visit, s))). F e)"
proof -
  obtain ls s1 where rb: "run_batch env (take 10 to_visit) s = (ls, s1)"
    by (cases "run_batch env (take 10 to_visit) s")
  have body: "loop_body env (to_visit, s) =
      (drop 10 to_visit @ ls, update_progress s1 (QueueSize (length (drop 10 to_visit @ ls))))"
    by (simp add: loop_body_def Let_def rb)
  have "I s1 \<and> (\<forall>e\<in>set ls. F e)"
  proof (rule run_batch_rule [where I = I and F = F and env = env and s = s and s' = s1
        and batch = "take 10 to_visit" and ls = ls])
    show "I s" by fact
    show "\<forall>e\<in>set (take 10 to_visit). F e"
      using assms(4) in_set_takeD by fast
    show "run_batch env (take 10 to_visit) s = (ls, s1)" by fact
  qed (rule step)
  moreover have "\<forall>e\<in>set (drop 10 to_visit). F e"
    using assms(4) in_set_dropD by fast
  moreover from calculation have "I (update_progress s1 (QueueSize (length (drop 10 to_visit @ ls))))"
    by (simp add: prog)
  ultimately show ?thesis by (auto simp: body)
qed

lemma start_loop_inv:
  assumes step: "\<And>s url d ls s'. \<lbrakk>I s; F (url, d);
                    scrape_page env s url d (url = base_url s) = (ls, s')\<rbrakk>
                  \<Longrightarrow> I s' \<and> (\<forall>e\<in>set ls. F e)"
    and prog: "\<And>s n. I s \<Longrightarrow> I (update_progress s (QueueSize n))"
    and "I s" "\<forall>e\<in>set to_visit. F e"
  shows "I (snd (start_loop env (to_visit, s))) \<and>
         (\<forall>e\<in>set (fst (start_loop env (to_visit, s))). F e)"
proof (rule start_loop_rule [where P = "\<lambda>c. I (snd c) \<and> (\<forall>e\<in>set (fst c). F e)"])
  fix to_visit s
  assume "I (snd (to_visit, s)) \<and> (\<forall>e\<in>set (fst (to_visit, s)). F e)"
  then have a: "I s" "\<forall>e\<in>set to_visit. F e" by simp_all
  show "I (snd (loop_body env (to_visit, s))) \<and> (\<forall>e\<in>set (fst (loop_body env (to_visit, s))). F e)"
    by (rule loop_body_rule [where I = I and F = F, OF _ _ a]) (erule (2) step, erule prog)
next
  from assms(3,4) show "I (snd (to_visit, s)) \<and> (\<forall>e\<in>set (fst (to_visit, s)). F e)" by simp
qed

lemma start_scraping_inv:
  assumes step: "\<And>s url d ls s'. \<lbrakk>I s; F (url, d);
                    scrape_page env s url d (url = base_url s) = (ls, s')\<rbrakk>
                  \<Longrightarrow> I s' \<and> (\<forall>e\<in>set ls. F e)"
    and prog: "\<And>s n. I s \<Longrightarrow> I (update_progress s (QueueSize n))"
    and fin: "\<And>s. I s \<Longrightarrow> I (update_progress s Completed)"
    and log: "\<And>s l. I s \<Longrightarrow> I (s\<lparr>logger := l\<rparr>)"
    and start: "I s" and seed: "F (base_url s, 0)"
  shows "I (start_scraping env s)"
proof -
  obtain to_visit s1 where sl: "start_loop env ([(base_url s, 0)], s) = (to_visit, s1)"
    by (cases "start_loop env ([(base_url s, 0)], s)")
  from seed have "\<forall>e\<in>set [(base_url s, 0::nat)]. F e" by simp
  have "I (snd (start_loop env ([(base_url s, 0)], s))) \<and>
        (\<forall>e\<in>set (fst (start_loop env ([(base_url s, 0)], s))). F e)"
    by (rule start_loop_inv [where I = I and F = F, OF _ _ start \<open>\<forall>e\<in>set [(base_url s, 0::nat)]. F e\<close>])
       (erule (2) step, erule prog)
  with sl have "I s1" by simp
  then have "I (update_progress s1 Completed)" by (rule fin)
  then show ?thesis by (simp add: start_scraping_def sl Let_def log)
qed


text \<open>
  Every line of the status line reports at most as many pages as are visited by then,
  and the visited pages only grow; a batch adds at most as many pages as it has entries.
\<close>

definition counts_ok :: "scraper \<Rightarrow> bool" where
  "counts_ok s = (\<forall>p\<in>set (stdout s). scanned p \<le> fcard (visited_urls s))"

lemma counts_ok_progress: "counts_ok s \<Longrightarrow> counts_ok (update_progress s m)"
  by (simp add: counts_ok_def update_progress_def)

lemma counts_ok_scrape_page:
  assumes "counts_ok s" "scrape_page env s url d f = (ls, s')"
  shows "counts_ok s'"
  using assms(2)
proof (cases rule: scrape_page_cases)
  case dropped
  with assms(1) show ?thesis by simp
next
  case (skipped s1)
  have "fcard (visited_urls s) \<le> fcard (visited_urls s1)"
    by (simp add: skipped(3) fcard_mono fsubset_finsertI)
  with assms(1) have "counts_ok s1"
    by (auto simp: counts_ok_def skipped(3))
  then show ?thesis
    by (simp add: counts_ok_def scanned_recently_fields [OF skipped(4)])
next
  case (fetched s1 s2)
  have "fcard (visited_urls s) \<le> fcard (visited_urls s1)"
    by (simp add: fetched(3) fcard_mono fsubset_finsertI)
  with assms(1) have "counts_ok s1"
    by (auto simp: counts_ok_def fetched(3))
  then have "counts_ok s2"
    by (simp add: counts_ok_def scanned_recently_fields [OF fetched(4)])
  then have "counts_ok (update_progress s2 (Scanning url d))"
    by (rule counts_ok_progress)
  then show ?thesis
    by (simp add: counts_ok_def fetch_and_scan_frame [OF fetched(5)])
qed

lemma counts_ok_run_batch:
  assumes "counts_ok s" "run_batch env batch s = (ls, s')"
  shows "counts_ok s'"
proof -
  have "counts_ok s' \<and> (\<forall>e\<in>set ls. True)"
  proof (rule run_batch_rule [where I = counts_ok and F = "\<lambda>e. True" and env = env and s = s
        and batch = batch and ls = ls and s' = s'])
    show "counts_ok s" by fact
    show "run_batch env batch s = (ls, s')" by fact
  qed (simp_all add: counts_ok_scrape_page)
  then show ?thesis by simp
qed

lemma loop_body_ceiling:
  assumes "counts_ok s" "to_visit \<noteq> []" "fcard (visited_urls s) < max_pages s"
    "loop_body env (to_visit, s) = (to_visit', s')"
  shows "counts_ok s' \<and> fcard (visited_urls s') \<le> max_pages s + 9 \<and> max_pages s' = max_pages s"
proof -
  obtain ls s1 where rb: "run_batch env (take 10 to_visit) s = (ls, s1)"
    by (cases "run_batch env (take 10 to_visit) s")
  from assms(4) have s': "s' = update_progress s1 (QueueSize (length to_visit'))"
    by (auto simp: loop_body_def Let_def rb)
  from run_batch_visited [OF rb]
  have "fcard (visited_urls s1) \<le> fcard (visited_urls s) + length (take 10 to_visit)"
    by simp
  with assms(3) have "fcard (visited_urls s1) \<le> max_pages s + 9" by simp
  moreover from counts_ok_run_batch [OF assms(1) rb] have "counts_ok s'"
    unfolding s' by (rule counts_ok_progress)
  moreover from run_batch_frame [OF rb] have "max_pages s' = max_pages s"
    by (simp add: s' update_progress_def)
  ultimately show ?thesis by (simp add: s' update_progress_def)
qed

lemma start_loop_ceiling:
  assumes "counts_ok s" "fcard (visited_urls s) \<le> max_pages s + 9"
    "start_loop env (to_visit, s) = (to_visit', s')"
  shows "counts_ok s' \<and> fcard (visited_urls s') \<le> max_pages s + 9"
proof -
  define P where "P = (\<lambda>c :: (string \<times> nat) list \<times> scraper.
    counts_ok (snd c) \<and> fcard (visited_urls (snd c)) \<le> max_pages s + 9
    \<and> max_pages (snd c) = max_pages s)"
  have "P (start_loop env (to_visit, s))"
  proof (rule start_loop_rule)
    show "P (to_visit, s)" using assms(1,2) by (simp add: P_def)
  next
    fix tv :: "(string \<times> nat) list" and t :: scraper
    assume p: "P (tv, t)" and g: "tv \<noteq> []" "fcard (visited_urls t) < max_pages t"
    obtain tv' t' where lb: "loop_body env (tv, t) = (tv', t')"
      by (cases "loop_body env (tv, t)")
    from p have "counts_ok t" "max_pages t = max_pages s" by (simp_all add: P_def)
    with loop_body_ceiling [OF this(1) g lb] show "P (loop_body env (tv, t))"
      by (simp add: P_def lb)
  qed
  with assms(3) show ?thesis by (simp add: P_def)
qed

text \<open>
  Every entry of a batch within the depth limit is a visited page once the batch has
  run; the loop leaves the limits and the base URL alone, and ends on an empty queue or
  a full set of visited pages.
\<close>

lemma run_batch_all_dispatched:
  "run_batch env batch s = (ls, s') \<Longrightarrow> (url, depth) \<in> set batch \<Longrightarrow> depth \<le> max_depth s
   \<Longrightarrow> url |\<in>| visited_urls s'"
proof (induction batch arbitrary: s ls)
  case Nil
  then show ?case by simp
next
  case (Cons e batch)
  obtain u d where e: "e = (u, d)" by (cases e)
  from Cons.prems(1) [unfolded e] show ?case
  proof (cases rule: run_batch_Cons)
    case (1 l1 s1 l2)
    from run_batch_visited [OF 1(2)] have sub: "visited_urls s1 |\<subseteq>| visited_urls s'" by simp
    show ?thesis
    proof (cases "(url, depth) = (u, d)")
      case True
      with scrape_page_visited [OF 1(1)] Cons.prems(3) have "url |\<in>| visited_urls s1"
        by (auto split: if_splits)
      with sub show ?thesis by auto
    next
      case False
      with Cons.prems(2) e have "(url, depth) \<in> set batch" by auto
      moreover from scrape_page_frame [OF 1(1)] Cons.prems(3) have "depth \<le> max_depth s1"
        by simp
      ultimately show ?thesis using Cons.IH [OF 1(2)] by simp
    qed
  qed
qed

lemma loop_body_frame:
  "max_pages (snd (loop_body env (to_visit, s))) = max_pages s \<and>
   max_depth (snd (loop_body env (to_visit, s))) = max_depth s \<and>
   base_url (snd (loop_body env (to_visit, s))) = base_url s"
proof -
  obtain ls s1 where rb: "run_batch env (take 10 to_visit) s = (ls, s1)"
    by (cases "run_batch env (take 10 to_visit) s")
  from run_batch_frame [OF rb] show ?thesis
    by (simp add: loop_body_def Let_def rb update_progress_def)
qed

lemma start_loop_frame:
  "max_pages (snd (start_loop env (to_visit, s))) = max_pages s \<and>
   max_depth (snd (start_loop env (to_visit, s))) = max_depth s \<and>
   base_url (snd (start_loop env (to_visit, s))) = base_url s"
proof (rule start_loop_rule [where P = "\<lambda>c. max_pages (snd c) = max_pages s \<and>
    max_depth (snd c) = max_depth s \<and> base_url (snd c) = base_url s"])
  fix tv :: "(string \<times> nat) list" and t :: scraper
  assume "max_pages (snd (tv, t)) = max_pages s \<and> max_depth (snd (tv, t)) = max_depth s \<and>
    base_url (snd (tv, t)) = base_url s"
  with loop_body_frame [of env tv t]
  show "max_pages (snd (loop_body env (tv, t))) = max_pages s \<and>
    max_depth (snd (loop_body env (tv, t))) = max_depth s \<and>
    base_url (snd (loop_body env (tv, t))) = base_url s"
    by simp
qed simp

lemma start_loop_exit:
  "fst (start_loop env c) = [] \<or>
   max_pages (snd (start_loop env c)) \<le> fcard (visited_urls (snd (start_loop env c)))"
proof (induction env c rule: start_loop.induct)
  case (1 env to_visit s)
  show ?case
  proof (cases "to_visit \<noteq> [] \<and> fcard (visited_urls s) < max_pages s")
    case True
    with "1.IH" show ?thesis by (simp add: start_loop_step)
  next
    case False
    then have "to_visit = [] \<or> max_pages s \<le> fcard (visited_urls s)" by auto
    then show ?thesis by (auto simp: start_loop_stop)
  qed
qed

section \<open>What scanning a page does\<close>

text \<open>
  One turn of the loop over the links of a page takes one of seven ways.  Whatever the
  way, the loop only sends HEAD requests, for addresses that pass \<^verbatim>\<open>is_valid_url\<close>;
  it appends the same rows to \<^verbatim>\<open>deadlinks\<close> and to the results file, each for an
  address whose HEAD request did not answer 200; and every link it returns was checked,
  answered 200, and was not a visited page.
\<close>

lemma scan_links_Cons_cases:
  assumes "scan_links env url d (href # hrefs) acc s = (r, s')"
  obtains (join_raises) e where "urljoin env url href = Inl e" "r = Inl e" "s' = s"
  | (valid_raises) full e where "urljoin env url href = Inr full"
      "is_valid_url env s full = Inl e" "r = Inl e" "s' = s"
  | (foreign) full where "urljoin env url href = Inr full"
      "is_valid_url env s full = Inr False" "scan_links env url d hrefs acc s = (r, s')"
  | (check_raises) full e s1 where "urljoin env url href = Inr full"
      "is_valid_url env s full = Inr True" "check_link env s full = (Inl e, s1)"
      "r = Inl e" "s' = s1"
  | (dead) full s1 where "urljoin env url href = Inr full"
      "is_valid_url env s full = Inr True" "check_link env s full = (Inr True, s1)"
      "scan_links env url d hrefs acc
         (save_result (s1\<lparr>deadlinks := deadlinks s1 @ [(url, full)]\<rparr>) (url, full)) = (r, s')"
  | (alive_new) full s1 where "urljoin env url href = Inr full"
      "is_valid_url env s full = Inr True" "check_link env s full = (Inr False, s1)"
      "full |\<notin>| visited_urls s1"
      "scan_links env url d hrefs (acc @ [(full, d + 1)]) s1 = (r, s')"
  | (alive_seen) full s1 where "urljoin env url href = Inr full"
      "is_valid_url env s full = Inr True" "check_link env s full = (Inr False, s1)"
      "full |\<in>| visited_urls s1"
      "scan_links env url d hrefs acc s1 = (r, s')"
proof (cases "urljoin env url href")
  case (Inl e)
  with assms have "r = Inl e" "s' = s" by simp_all
  with Inl show ?thesis by (rule join_raises)
next
  case full: (Inr full)
  show ?thesis
  proof (cases "is_valid_url env s full")
    case (Inl e)
    with assms full have "r = Inl e" "s' = s" by simp_all
    with full Inl show ?thesis by (rule valid_raises)
  next
    case (Inr v)
    show ?thesis
    proof (cases v)
      case False
      with assms full Inr have "scan_links env url d hrefs acc s = (r, s')" by simp
      with full Inr False show ?thesis by (intro foreign [of full]) simp_all
    next
      case True
      obtain c s1 where cl: "check_link env s full = (c, s1)"
        by (cases "check_link env s full")
      show ?thesis
      proof (cases c)
        case (Inl e)
        with assms full Inr True cl have "r = Inl e" "s' = s1" by simp_all
        with full Inr True cl Inl show ?thesis by (intro check_raises [of full e s1]) simp_all
      next
        case c: (Inr b)
        show ?thesis
        proof (cases b)
          case b: True
          with assms full Inr True cl c
          have "scan_links env url d hrefs acc
            (save_result (s1\<lparr>deadlinks := deadlinks s1 @ [(url, full)]\<rparr>) (url, full)) = (r, s')"
            by simp
          with full Inr True cl c b show ?thesis by (intro dead [of full s1]) simp_all
        next
          case b: False
          show ?thesis
          proof (cases "full |\<in>| visited_urls s1")
            case seen: True
            with assms full Inr True cl c b
            have "scan_links env url d hrefs acc s1 = (r, s')" by simp
            with full Inr True cl c b seen show ?thesis
              by (intro alive_seen [of full s1]) simp_all
          next
            case new: False
            with assms full Inr True cl c b
            have "scan_links env url d hrefs (acc @ [(full, d + 1)]) s1 = (r, s')" by simp
            with full Inr True cl c b new show ?thesis
              by (intro alive_new [of full s1]) simp_all
          qed
        qed
      qed
    qed
  qed
qed

lemma check_link_result:
  assumes "check_link env s u = (r, s')"
  shows "s' = s\<lparr>requests := requests s @ [HEAD u], clock := clock s + 1\<rparr>"
    and "r = Inr True \<Longrightarrow> http_head env (clock s) u \<noteq> Inr 200"
    and "r = Inr False \<Longrightarrow> http_head env (clock s) u = Inr 200"
  using assms by (auto simp: check_link_def Let_def split: sum.splits exn.splits)

lemma is_valid_url_base:
  "base_url s' = base_url s \<Longrightarrow> is_valid_url env s' u = is_valid_url env s u"
  by (simp add: is_valid_url_def split: sum.splits)

lemma scan_links_effect:
  assumes "scan_links env url d hrefs acc s = (r, s')"
  shows "\<exists>checked dead.
     requests s' = requests s @ map HEAD checked \<and>
     deadlinks s' = deadlinks s @ map (Pair url) dead \<and>
     results_file s' = results_file s @ map (Pair url) dead \<and>
     clock s' = clock s + length checked \<and>
     (\<forall>u\<in>set checked. is_valid_url env s u = Inr True) \<and>
     (\<forall>u\<in>set dead. u \<in> set checked \<and> (\<exists>t. http_head env t u \<noteq> Inr 200)) \<and>
     (\<forall>ls. r = Inr ls \<longrightarrow>
        (\<exists>new. ls = acc @ map (\<lambda>u. (u, d + 1)) new \<and>
           (\<forall>u\<in>set new. u \<in> set checked \<and> u |\<notin>| visited_urls s \<and>
              (\<exists>t. http_head env t u = Inr 200))))"
  using assms
proof (induction hrefs arbitrary: acc s)
  case Nil
  then have "r = Inr acc" "s' = s" by simp_all
  then show ?case
    by (simp add: exI [of _ "[]"])
next
  case (Cons href hrefs)
  from Cons.prems show ?case
  proof (cases rule: scan_links_Cons_cases)
    case (join_raises e)
    then show ?thesis by (simp add: exI [of _ "[]"])
  next
    case (valid_raises full e)
    then show ?thesis by (simp add: exI [of _ "[]"])
  next
    case (foreign full)
    from Cons.IH [OF foreign(3)] show ?thesis .
  next
    case (check_raises full e s1)
    note s1 = check_link_result(1) [OF check_raises(3)]
    show ?thesis
      apply (rule exI [of _ "[full]"], rule exI [of _ "[]"])
      using check_raises(2,4,5) apply (simp add: s1)
      done
  next
    case (dead full s1)
    note s1 = check_link_result(1) [OF dead(3)]
    from check_link_result(2) [OF dead(3)]
    have bad: "http_head env (clock s) full \<noteq> Inr 200" by simp
    define s2 where "s2 = save_result (s1\<lparr>deadlinks := deadlinks s1 @ [(url, full)]\<rparr>) (url, full)"
    have s2: "requests s2 = requests s @ [HEAD full]" "deadlinks s2 = deadlinks s @ [(url, full)]"
      "results_file s2 = results_file s @ [(url, full)]" "clock s2 = clock s + 1"
      "base_url s2 = base_url s" "visited_urls s2 = visited_urls s"
      by (simp_all add: s2_def s1 save_result_def)
    from Cons.IH [OF dead(4) [folded s2_def]]
    obtain checked dead' where ih:
      "requests s' = requests s2 @ map HEAD checked"
      "deadlinks s' = deadlinks s2 @ map (Pair url) dead'"
      "results_file s' = results_file s2 @ map (Pair url) dead'"
      "clock s' = clock s2 + length checked"
      "\<forall>u\<in>set checked. is_valid_url env s2 u = Inr True"
      "\<forall>u\<in>set dead'. u \<in> set checked \<and> (\<exists>t. http_head env t u \<noteq> Inr 200)"
      "\<forall>ls. r = Inr ls \<longrightarrow>
        (\<exists>new. ls = acc @ map (\<lambda>u. (u, d + 1)) new \<and>
           (\<forall>u\<in>set new. u \<in> set checked \<and> u |\<notin>| visited_urls s2 \<and>
              (\<exists>t. http_head env t u = Inr 200)))"
      by blast
    show ?thesis
    proof (rule exI [of _ "full # checked"], rule exI [of _ "full # dead'"], intro conjI)
      show "\<forall>u\<in>set (full # checked). is_valid_url env s u = Inr True"
        using ih(5) dead(2) by (simp add: is_valid_url_base [OF s2(5)])
      show "\<forall>u\<in>set (full # dead'). u \<in> set (full # checked) \<and> (\<exists>t. http_head env t u \<noteq> Inr 200)"
        using ih(6) bad by auto
      show "\<forall>ls. r = Inr ls \<longrightarrow>
        (\<exists>new. ls = acc @ map (\<lambda>u. (u, d + 1)) new \<and>
           (\<forall>u\<in>set new. u \<in> set (full # checked) \<and> u |\<notin>| visited_urls s \<and>
              (\<exists>t. http_head env t u = Inr 200)))"
        using ih(7) by (simp add: s2(6)) blast
    qed (simp_all add: ih(1-4) s2)
  next
    case (alive_new full s1)
    note s1 = check_link_result(1) [OF alive_new(3)]
    from check_link_result(3) [OF alive_new(3)]
    have good: "http_head env (clock s) full = Inr 200" by simp
    have s1f: "requests s1 = requests s @ [HEAD full]" "deadlinks s1 = deadlinks s"
      "results_file s1 = results_file s" "clock s1 = clock s + 1"
      "base_url s1 = base_url s" "visited_urls s1 = visited_urls s"
      by (simp_all add: s1)
    from Cons.IH [OF alive_new(5)]
    obtain checked dead' where ih:
      "requests s' = requests s1 @ map HEAD checked"
      "deadlinks s' = deadlinks s1 @ map (Pair url) dead'"
      "results_file s' = results_file s1 @ map (Pair url) dead'"
      "clock s' = clock s1 + length checked"
      "\<forall>u\<in>set checked. is_valid_url env s1 u = Inr True"
      "\<forall>u\<in>set dead'. u \<in> set checked \<and> (\<exists>t. http_head env t u \<noteq> Inr 200)"
      "\<forall>ls. r = Inr ls \<longrightarrow>
        (\<exists>new. ls = (acc @ [(full, d + 1)]) @ map (\<lambda>u. (u, d + 1)) new \<and>
           (\<forall>u\<in>set new. u \<in> set checked \<and> u |\<notin>| visited_urls s1 \<and>
              (\<exists>t. http_head env t u = Inr 200)))"
      by blast
    show ?thesis
    proof (rule exI [of _ "full # checked"], rule exI [of _ "dead'"], intro conjI)
      show "\<forall>u\<in>set (full # checked). is_valid_url env s u = Inr True"
        using ih(5) alive_new(2) by (simp add: is_valid_url_base [OF s1f(5)])
      show "\<forall>u\<in>set dead'. u \<in> set (full # checked) \<and> (\<exists>t. http_head env t u \<noteq> Inr 200)"
        using ih(6) by auto
      show "\<forall>ls. r = Inr ls \<longrightarrow>
        (\<exists>new. ls = acc @ map (\<lambda>u. (u, d + 1)) new \<and>
           (\<forall>u\<in>set new. u \<in> set (full # checked) \<and> u |\<notin>| visited_urls s \<and>
              (\<exists>t. http_head env t u = Inr 200)))"
      proof (intro allI impI)
        fix ls assume "r = Inr ls"
        with ih(7) obtain new where new: "ls = (acc @ [(full, d + 1)]) @ map (\<lambda>u. (u, d + 1)) new"
          "\<forall>u\<in>set new. u \<in> set checked \<and> u |\<notin>| visited_urls s1 \<and>
              (\<exists>t. http_head env t u = Inr 200)"
          by blast
        show "\<exists>new. ls = acc @ map (\<lambda>u. (u, d + 1)) new \<and>
           (\<forall>u\<in>set new. u \<in> set (full # checked) \<and> u |\<notin>| visited_urls s \<and>
              (\<exists>t. http_head env t u = Inr 200))"
          apply (rule exI [of _ "full # new"])
          using new good alive_new(4) apply (auto simp: s1f(6))
          done
      qed
    qed (simp_all add: ih(1-4) s1f)
  next
    case (alive_seen full s1)
    note s1 = check_link_result(1) [OF alive_seen(3)]
    have s1f: "requests s1 = requests s @ [HEAD full]" "deadlinks s1 = deadlinks s"
      "results_file s1 = results_file s" "clock s1 = clock s + 1"
      "base_url s1 = base_url s" "visited_urls s1 = visited_urls s"
      by (simp_all add: s1)
    from Cons.IH [OF alive_seen(5)]
    obtain checked dead' where ih:
      "requests s' = requests s1 @ map HEAD checked"
      "deadlinks s' = deadlinks s1 @ map (Pair url) dead'"
      "results_file s' = results_file s1 @ map (Pair url) dead'"
      "clock s' = clock s1 + length checked"
      "\<forall>u\<in>set checked. is_valid_url env s1 u = Inr True"
      "\<forall>u\<in>set dead'. u \<in> set checked \<and> (\<exists>t. http_head env t u \<noteq> Inr 200)"
      "\<forall>ls. r = Inr ls \<longrightarrow>
        (\<exists>new. ls = acc @ map (\<lambda>u. (u, d + 1)) new \<and>
           (\<forall>u\<in>set new. u \<in> set checked \<and> u |\<notin>| visited_urls s1 \<and>
              (\<exists>t. http_head env t u = Inr 200)))"
      by blast
    show ?thesis
    proof (rule exI [of _ "full # checked"], rule exI [of _ "dead'"], intro conjI)
      show "\<forall>u\<in>set (full # checked). is_valid_url env s u = Inr True"
        using ih(5) alive_seen(2) by (simp add: is_valid_url_base [OF s1f(5)])
      show "\<forall>u\<in>set dead'. u \<in> set (full # checked) \<and> (\<exists>t. http_head env t u \<noteq> Inr 200)"
        using ih(6) by auto
      show "\<forall>ls. r = Inr ls \<longrightarrow>
        (\<exists>new. ls = acc @ map (\<lambda>u. (u, d + 1)) new \<and>
           (\<forall>u\<in>set new. u \<in> set (full # checked) \<and> u |\<notin>| visited_urls s \<and>
              (\<exists>t. http_head env t u = Inr 200)))"
        using ih(7) by (simp add: s1f(6)) blast
    qed (simp_all add: ih(1-4) s1f)
  qed
qed


text \<open>
  A call of \<^verbatim>\<open>scrape_page\<close> is either quiet (the entry is dropped, or the page is skipped
  as scanned recently) or it writes a line \<^verbatim>\<open>Scanning\<close> and sends one GET request for
  the page, followed by the HEAD requests of the loop.
\<close>

lemma fetch_and_scan_effect:
  assumes "fetch_and_scan env s url d = (ls, s')"
  obtains checked dead where
    "requests s' = requests s @ GET url # map HEAD checked"
    "deadlinks s' = deadlinks s @ map (Pair url) dead"
    "results_file s' = results_file s @ map (Pair url) dead"
    "\<forall>u\<in>set checked. is_valid_url env s u = Inr True"
    "\<forall>u\<in>set dead. u \<in> set checked \<and> (\<exists>t. http_head env t u \<noteq> Inr 200)"
    "\<forall>(u, d')\<in>set ls. d' = d + 1 \<and> u \<in> set checked \<and> u |\<notin>| visited_urls s \<and>
       (\<exists>t. http_head env t u = Inr 200)"
proof -
  define s1 where "s1 = s\<lparr>requests := requests s @ [GET url], clock := clock s + 1\<rparr>"
  have s1: "requests s1 = requests s @ [GET url]" "deadlinks s1 = deadlinks s"
    "results_file s1 = results_file s" "base_url s1 = base_url s"
    "visited_urls s1 = visited_urls s"
    by (simp_all add: s1_def)
  show ?thesis
  proof (cases "http_get env (clock s) url")
    case (Inl e)
    with assms have "ls = []" "s' = s1\<lparr>logger := logger s1 @ [ErrorScanning url]\<rparr>"
      by (simp_all add: fetch_and_scan_def Let_def s1_def)
    then show ?thesis
      by (intro that [of "[]" "[]"]) (simp_all add: s1)
  next
    case (Inr hrefs)
    obtain r s2 where sl: "scan_links env url d hrefs [] s1 = (r, s2)"
      by (cases "scan_links env url d hrefs [] s1")
    from scan_links_effect [OF sl] obtain checked dead where eff:
      "requests s2 = requests s1 @ map HEAD checked"
      "deadlinks s2 = deadlinks s1 @ map (Pair url) dead"
      "results_file s2 = results_file s1 @ map (Pair url) dead"
      "\<forall>u\<in>set checked. is_valid_url env s1 u = Inr True"
      "\<forall>u\<in>set dead. u \<in> set checked \<and> (\<exists>t. http_head env t u \<noteq> Inr 200)"
      "\<forall>ls. r = Inr ls \<longrightarrow>
        (\<exists>new. ls = [] @ map (\<lambda>u. (u, d + 1)) new \<and>
           (\<forall>u\<in>set new. u \<in> set checked \<and> u |\<notin>| visited_urls s1 \<and>
              (\<exists>t. http_head env t u = Inr 200)))"
      by blast
    have valid: "\<forall>u\<in>set checked. is_valid_url env s u = Inr True"
      using eff(4) by (simp add: is_valid_url_base [OF s1(4)])
    show ?thesis
    proof (cases r)
      case (Inl e)
      with assms Inr sl have "ls = []" "s' = s2\<lparr>logger := logger s2 @ [ErrorScanning url]\<rparr>"
        by (simp_all add: fetch_and_scan_def Let_def s1_def)
      with eff(1-3,5) valid show ?thesis
        by (intro that [of checked dead]) (simp_all add: s1)
    next
      case r: (Inr links)
      with assms Inr sl have res: "ls = links" "s' = update_history env s2 url"
        by (simp_all add: fetch_and_scan_def Let_def s1_def)
      from eff(6) r obtain new where new: "links = map (\<lambda>u. (u, d + 1)) new"
        "\<forall>u\<in>set new. u \<in> set checked \<and> u |\<notin>| visited_urls s1 \<and>
              (\<exists>t. http_head env t u = Inr 200)"
        by auto
      then have "\<forall>(u, d')\<in>set ls. d' = d + 1 \<and> u \<in> set checked \<and> u |\<notin>| visited_urls s \<and>
         (\<exists>t. http_head env t u = Inr 200)"
        by (auto simp: res s1)
      with eff(1-3,5) valid show ?thesis
        by (intro that [of checked dead]) (simp_all add: res update_history_frame s1)
    qed
  qed
qed

lemma scrape_page_effect:
  assumes "scrape_page env s url d f = (ls, s')"
  obtains (quiet) "ls = []" "requests s' = requests s" "deadlinks s' = deadlinks s"
      "results_file s' = results_file s" "stdout s' = stdout s"
      "history_df s' = history_df s" "history_file s' = history_file s" "logger s' = logger s"
  | (fetch) p checked dead where "url |\<notin>| visited_urls s" "d \<le> max_depth s"
      "stdout s' = stdout s @ [p]" "msg p = Scanning url d"
      "requests s' = requests s @ GET url # map HEAD checked"
      "deadlinks s' = deadlinks s @ map (Pair url) dead"
      "results_file s' = results_file s @ map (Pair url) dead"
      "\<forall>u\<in>set checked. is_valid_url env s u = Inr True"
      "\<forall>u\<in>set dead. u \<in> set checked \<and> (\<exists>t. http_head env t u \<noteq> Inr 200)"
      "\<forall>(u, d')\<in>set ls. d' = d + 1 \<and> u \<in> set checked \<and> (\<exists>t. http_head env t u = Inr 200)"
  using assms
proof (cases rule: scrape_page_cases)
  case dropped
  then show ?thesis by (intro quiet) simp_all
next
  case (skipped s1)
  show ?thesis
    by (intro quiet) (simp_all add: skipped(5) scanned_recently_fields [OF skipped(4)] skipped(3))
next
  case (fetched s1 s2)
  define s3 where "s3 = update_progress s2 (Scanning url d)"
  note g = scanned_recently_fields [OF fetched(4)]
  have s3: "requests s3 = requests s" "deadlinks s3 = deadlinks s"
    "results_file s3 = results_file s" "base_url s3 = base_url s"
    "stdout s3 = stdout s @ [\<lparr>scanned = fcard (visited_urls s2), found = length (deadlinks s2),
          max_depth_seen = current_depth s2, msg = Scanning url d\<rparr>]"
    by (simp_all add: s3_def update_progress_def g fetched(3))
  from fetched(5) [folded s3_def] show ?thesis
  proof (cases rule: fetch_and_scan_effect)
    case (1 checked dead)
    have "\<forall>u\<in>set checked. is_valid_url env s u = Inr True"
      using 1(4) by (simp add: is_valid_url_base [OF s3(4)])
    moreover have "\<forall>(u, d')\<in>set ls. d' = d + 1 \<and> u \<in> set checked \<and>
        (\<exists>t. http_head env t u = Inr 200)"
      using 1(6) by auto
    moreover have "stdout s' = stdout s3"
      using fetch_and_scan_frame [OF fetched(5) [folded s3_def]] by simp
    ultimately show ?thesis
      using fetched(1,2) 1(1,2,3,5)
      by (intro fetch [of "\<lparr>scanned = fcard (visited_urls s2), found = length (deadlinks s2),
          max_depth_seen = current_depth s2, msg = Scanning url d\<rparr>" checked dead])
        (simp_all add: s3)
  qed
qed


section \<open>The pages fetched and their depths\<close>

text \<open>
  \<open>fetched_urls\<close> reads the addresses of the GET requests off the requests sent, and
  \<open>scanning\<close> the entries (address and depth) of the lines \<^verbatim>\<open>Scanning\<close> off the status
  line.  \<^verbatim>\<open>scrape_page\<close> writes such a line for an entry exactly when it goes on to
  fetch the page, so the two lists name the same pages in the same order.
\<close>

definition fetched_urls :: "request list \<Rightarrow> string list" where
  "fetched_urls rs = concat (map (\<lambda>r. case r of GET u \<Rightarrow> [u] | HEAD u \<Rightarrow> []) rs)"

definition scanning :: "progress list \<Rightarrow> (string \<times> nat) list" where
  "scanning ps = concat (map (\<lambda>p. case msg p of Scanning u d \<Rightarrow> [(u, d)] | _ \<Rightarrow> []) ps)"

lemma fetched_urls_simps [simp]:
  "fetched_urls [] = []"
  "fetched_urls (GET u # rs) = u # fetched_urls rs"
  "fetched_urls (HEAD u # rs) = fetched_urls rs"
  "fetched_urls (rs @ rs') = fetched_urls rs @ fetched_urls rs'"
  "fetched_urls (map HEAD us) = []"
  by (simp_all add: fetched_urls_def)

lemma scanning_simps [simp]:
  "scanning [] = []"
  "scanning (ps @ ps') = scanning ps @ scanning ps'"
  "msg p = Scanning u d \<Longrightarrow> scanning [p] = [(u, d)]"
  "scanning (stdout (update_progress s (QueueSize n))) = scanning (stdout s)"
  "scanning (stdout (update_progress s Completed)) = scanning (stdout s)"
  by (simp_all add: scanning_def update_progress_def)

lemma set_fetched_urls: "u \<in> set (fetched_urls rs) \<longleftrightarrow> GET u \<in> set rs"
  by (induction rs) (auto simp: fetched_urls_def split: request.splits)

lemma update_progress_fields:
  "max_pages (update_progress s m) = max_pages s"
  "max_depth (update_progress s m) = max_depth s"
  "visited_urls (update_progress s m) = visited_urls s"
  "deadlinks (update_progress s m) = deadlinks s"
  "current_depth (update_progress s m) = current_depth s"
  "base_url (update_progress s m) = base_url s"
  "history_df (update_progress s m) = history_df s"
  "results_file (update_progress s m) = results_file s"
  "history_file (update_progress s m) = history_file s"
  "logger (update_progress s m) = logger s"
  "requests (update_progress s m) = requests s"
  "clock (update_progress s m) = clock s"
  by (simp_all add: update_progress_def)




section \<open>The pages fetched and the scope\<close>





section \<open>The dead links found and the results file\<close>

text \<open>
  \<^verbatim>\<open>deadlinks\<close> and the results file hold the rows loaded at construction followed by
  the same new rows; each new row names a page that was fetched and a link that was
  checked.  \<^verbatim>\<open>scrape_page\<close> keeps this, and the last line of the status line of a
  crawl reports the length of \<^verbatim>\<open>deadlinks\<close>.
\<close>

definition dead_ok :: "(string \<times> string) list \<Rightarrow> scraper \<Rightarrow> bool" where
  "dead_ok loaded s \<longleftrightarrow>
     (\<exists>new. deadlinks s = loaded @ new \<and> results_file s = loaded @ new \<and>
        (\<forall>(source, deadlink)\<in>set new.
           GET source \<in> set (requests s) \<and> HEAD deadlink \<in> set (requests s)))"

lemma dead_ok_scrape_page:
  assumes "dead_ok loaded s" "scrape_page env s url d f = (ls, s')"
  shows "dead_ok loaded s'"
proof -
  from assms(1) obtain new where new: "deadlinks s = loaded @ new"
    "results_file s = loaded @ new"
    "\<forall>(source, deadlink)\<in>set new.
           GET source \<in> set (requests s) \<and> HEAD deadlink \<in> set (requests s)"
    by (auto simp: dead_ok_def)
  from assms(2) show ?thesis
  proof (cases rule: scrape_page_effect)
    case quiet
    with new show ?thesis unfolding dead_ok_def by auto
  next
    case (fetch p checked dead)
    show ?thesis unfolding dead_ok_def
    proof (intro exI [of _ "new @ map (Pair url) dead"] conjI)
      show "\<forall>(source, deadlink)\<in>set (new @ map (Pair url) dead).
           GET source \<in> set (requests s') \<and> HEAD deadlink \<in> set (requests s')"
        using new(3) fetch(9) by (auto simp: fetch(5))
    qed (simp_all add: fetch(6,7) new(1,2))
  qed
qed

lemma dead_ok_progress:
  "dead_ok loaded s \<Longrightarrow> dead_ok loaded (update_progress s m)"
  "dead_ok loaded s \<Longrightarrow> dead_ok loaded (s\<lparr>logger := l\<rparr>)"
  by (simp_all add: dead_ok_def update_progress_fields)

lemma start_scraping_last_line:
  "stdout (start_scraping env s) \<noteq> [] \<and>
   found (last (stdout (start_scraping env s))) = length (deadlinks (start_scraping env s)) \<and>
   msg (last (stdout (start_scraping env s))) = Completed"
  by (simp add: start_scraping_def Let_def update_progress_def split: prod.splits)

section \<open>Dead links and the queue\<close>

text \<open>
  On a site whose answer to a HEAD request does not change with time, every new row
  of \<^verbatim>\<open>deadlinks\<close> names a link whose HEAD request does not answer 200, while every
  page fetched and every entry of the queue is the base URL or answers 200.
\<close>

definition alive_ok :: "env \<Rightarrow> scraper \<Rightarrow> scraper \<Rightarrow> bool" where
  "alive_ok env s0 s \<longleftrightarrow>
     (\<exists>new. deadlinks s = deadlinks s0 @ new \<and>
        (\<forall>(source, deadlink)\<in>set new. http_head env 0 deadlink \<noteq> Inr 200)) \<and>
     (\<forall>u\<in>set (fetched_urls (requests s)). u = base_url s0 \<or> http_head env 0 u = Inr 200)"

lemma alive_ok_scrape_page:
  assumes static: "\<forall>t u. http_head env t u = http_head env 0 u"
    and "alive_ok env s0 s" "url = base_url s0 \<or> http_head env 0 url = Inr 200"
    and "scrape_page env s url d f = (ls, s')"
  shows "alive_ok env s0 s' \<and>
         (\<forall>e\<in>set ls. fst e = base_url s0 \<or> http_head env 0 (fst e) = Inr 200)"
proof -
  from assms(2) obtain new where new: "deadlinks s = deadlinks s0 @ new"
    "\<forall>(source, deadlink)\<in>set new. http_head env 0 deadlink \<noteq> Inr 200"
    and got: "\<forall>u\<in>set (fetched_urls (requests s)). u = base_url s0 \<or> http_head env 0 u = Inr 200"
    by (auto simp: alive_ok_def)
  from assms(4) show ?thesis
  proof (cases rule: scrape_page_effect)
    case quiet
    with assms(2) show ?thesis by (simp add: alive_ok_def)
  next
    case (fetch p checked dead)
    have d: "\<forall>u\<in>set dead. http_head env 0 u \<noteq> Inr 200"
    proof
      fix u assume "u \<in> set dead"
      with fetch(9) obtain t where "http_head env t u \<noteq> Inr 200" by blast
      moreover from static have "http_head env t u = http_head env 0 u" by blast
      ultimately show "http_head env 0 u \<noteq> Inr 200" by simp
    qed
    have l: "\<forall>e\<in>set ls. http_head env 0 (fst e) = Inr 200"
    proof
      fix e assume "e \<in> set ls"
      with fetch(10) obtain t where "http_head env t (fst e) = Inr 200"
        by (cases e) auto
      moreover from static have "http_head env t (fst e) = http_head env 0 (fst e)" by blast
      ultimately show "http_head env 0 (fst e) = Inr 200" by simp
    qed
    have "\<exists>new'. deadlinks s' = deadlinks s0 @ new' \<and>
        (\<forall>(source, deadlink)\<in>set new'. http_head env 0 deadlink \<noteq> Inr 200)"
      apply (rule exI [of _ "new @ map (Pair url) dead"])
      using new d apply (auto simp: fetch(6))
      done
    moreover have "\<forall>u\<in>set (fetched_urls (requests s')).
        u = base_url s0 \<or> http_head env 0 u = Inr 200"
      using got assms(3) by (auto simp: fetch(5))
    ultimately show ?thesis using l
      by (auto simp: alive_ok_def)
  qed
qed

lemma alive_ok_progress:
  "alive_ok env s0 s \<Longrightarrow> alive_ok env s0 (update_progress s m)"
  by (simp add: alive_ok_def update_progress_fields)

lemma start_scraping_fields:
  "requests (start_scraping env s) = requests (snd (start_loop env ([(base_url s, 0)], s)))"
  "deadlinks (start_scraping env s) = deadlinks (snd (start_loop env ([(base_url s, 0)], s)))"
  "visited_urls (start_scraping env s)
     = visited_urls (snd (start_loop env ([(base_url s, 0)], s)))"
  "history_df (start_scraping env s) = history_df (snd (start_loop env ([(base_url s, 0)], s)))"
  by (simp_all add: start_scraping_def Let_def update_progress_def split: prod.splits)

section \<open>Skipping a page scanned recently\<close>

text \<open>
  The test of the history reads the history and the clock only.  A page that is not yet
  visited and within the depth limit is skipped, with no request sent, exactly when the
  test succeeds; otherwise a GET request for it is sent.  The first entry of a crawl is
  the base URL, scraped with \<^verbatim>\<open>force_scan\<close> set, and requests once sent stay sent.
\<close>

lemma scanned_recently_other_fields:
  "scanned_recently env (s\<lparr>visited_urls := v, current_depth := c\<rparr>) url f =
     (fst (scanned_recently env s url f),
      (snd (scanned_recently env s url f))\<lparr>visited_urls := v, current_depth := c\<rparr>)"
  by (simp add: scanned_recently_def split: option.splits)

lemma scanned_recently_iff:
  "fst (scanned_recently env s url f) \<longleftrightarrow>
     \<not> f \<and> (\<exists>last_scanned. map_of (history_df s) url = Some last_scanned \<and>
               now env (clock s) - last_scanned < rescan_window)"
  by (simp add: scanned_recently_def split: option.splits)

lemma scrape_page_requests_grow:
  assumes "scrape_page env s url d f = (ls, s')"
  shows "set (requests s) \<subseteq> set (requests s')"
  using assms by (cases rule: scrape_page_effect) auto

lemma scrape_page_skips_iff:
  assumes "url |\<notin>| visited_urls s" "depth \<le> max_depth s"
  shows "requests (snd (scrape_page env s url depth f)) = requests s \<longleftrightarrow>
           fst (scanned_recently env s url f)"
    and "fst (scanned_recently env s url f) \<Longrightarrow>
           fst (scrape_page env s url depth f) = [] \<and>
           url |\<in>| visited_urls (snd (scrape_page env s url depth f))"
    and "\<not> fst (scanned_recently env s url f) \<Longrightarrow>
           GET url \<in> set (requests (snd (scrape_page env s url depth f)))"
proof -
  obtain ls s' where sp: "scrape_page env s url depth f = (ls, s')"
    by (cases "scrape_page env s url depth f")
  from sp have "(requests s' = requests s \<longleftrightarrow> fst (scanned_recently env s url f)) \<and>
    (fst (scanned_recently env s url f) \<longrightarrow> ls = [] \<and> url |\<in>| visited_urls s') \<and>
    (\<not> fst (scanned_recently env s url f) \<longrightarrow> GET url \<in> set (requests s'))"
  proof (cases rule: scrape_page_cases)
    case dropped
    with assms show ?thesis by auto
  next
    case (skipped s1)
    from skipped(4) have "fst (scanned_recently env s url f)"
      by (simp add: skipped(3) scanned_recently_other_fields)
    moreover have "requests s' = requests s" "visited_urls s' = finsert url (visited_urls s)"
      by (simp_all add: scanned_recently_fields [OF skipped(4)] skipped(3))
    ultimately show ?thesis using skipped(5) by simp
  next
    case (fetched s1 s2)
    from fetched(4) have n: "\<not> fst (scanned_recently env s url f)"
      by (simp add: fetched(3) scanned_recently_other_fields)
    from fetched(5) obtain checked where
      "requests s' = requests (update_progress s2 (Scanning url depth)) @ GET url # map HEAD checked"
      by (cases rule: fetch_and_scan_effect) blast
    then have "requests s' = requests s @ GET url # map HEAD checked"
      by (simp add: update_progress_fields scanned_recently_fields [OF fetched(4)] fetched(3))
    with n show ?thesis by simp
  qed
  then show "requests (snd (scrape_page env s url depth f)) = requests s \<longleftrightarrow>
           fst (scanned_recently env s url f)"
    and "fst (scanned_recently env s url f) \<Longrightarrow>
           fst (scrape_page env s url depth f) = [] \<and>
           url |\<in>| visited_urls (snd (scrape_page env s url depth f))"
    and "\<not> fst (scanned_recently env s url f) \<Longrightarrow>
           GET url \<in> set (requests (snd (scrape_page env s url depth f)))"
    by (simp_all add: sp)
qed

lemma seed_fetched:
  assumes "base_url s |\<notin>| visited_urls s" "fcard (visited_urls s) < max_pages s"
  shows "GET (base_url s) \<in> set (requests (start_scraping env s))"
proof -
  let ?b = "base_url s"
  obtain ls s1 where sp: "scrape_page env s ?b 0 True = (ls, s1)"
    by (cases "scrape_page env s ?b 0 True")
  have "\<not> fst (scanned_recently env s ?b True)" by (simp add: scanned_recently_def)
  from scrape_page_skips_iff(3) [OF assms(1) _ this, of 0] sp
  have g: "GET ?b \<in> set (requests s1)" by simp
  have lb: "loop_body env ([(?b, 0)], s) = (ls, update_progress s1 (QueueSize (length ls)))"
    by (simp add: loop_body_def sp)
  have "GET ?b \<in> set (requests (snd (start_loop env (ls, update_progress s1 (QueueSize (length ls))))))
        \<and> (\<forall>e\<in>set (fst (start_loop env (ls, update_progress s1 (QueueSize (length ls))))). True)"
  proof (rule start_loop_inv [where I = "\<lambda>t. GET ?b \<in> set (requests t)" and F = "\<lambda>e. True"])
    show "GET ?b \<in> set (requests (update_progress s1 (QueueSize (length ls))))"
      using g by (simp add: update_progress_fields)
    show "\<And>t url d ls t'. \<lbrakk>GET ?b \<in> set (requests t); True;
        scrape_page env t url d (url = base_url t) = (ls, t')\<rbrakk>
       \<Longrightarrow> GET ?b \<in> set (requests t') \<and> (\<forall>e\<in>set ls. True)"
      using scrape_page_requests_grow by blast
  qed (simp_all add: update_progress_fields)
  moreover from assms(2)
  have "start_loop env ([(?b, 0)], s)
          = start_loop env (ls, update_progress s1 (QueueSize (length ls)))"
    by (simp add: start_loop_step lb)
  ultimately show ?thesis by (simp add: start_scraping_fields)
qed

section \<open>The history\<close>

text \<open>
  \<^verbatim>\<open>update_history\<close> leaves one time for the page in the history, the time it read,
  and writes the history to its file.  The \<^verbatim>\<open>try\<close> block of \<^verbatim>\<open>scrape_page\<close> either ends
  with \<^verbatim>\<open>update_history\<close>, having logged no error, or logs an error, returns no link
  and leaves the history alone.
\<close>

lemma map_of_upsert:
  "url \<in> fst ` set h \<Longrightarrow>
     map_of (map (\<lambda>(u, last). if u = url then (u, t) else (u, last)) h) url = Some t"
  by (induction h) auto

lemma update_history_row:
  "map_of (history_df (update_history env s url)) url = Some (now env (clock s))"
  "clock (update_history env s url) = clock s + 1"
  "history_file (update_history env s url) = history_df (update_history env s url)"
proof -
  show "map_of (history_df (update_history env s url)) url = Some (now env (clock s))"
  proof (cases "url \<in> fst ` set (history_df s)")
    case True
    then show ?thesis
      by (simp add: update_history_def save_history_def Let_def map_of_upsert)
  next
    case False
    then have "map_of (history_df s) url = None" by (simp add: map_of_eq_None_iff)
    with False show ?thesis
      by (simp add: update_history_def save_history_def Let_def map_add_def)
  qed
qed (simp_all add: update_history_def save_history_def Let_def)

lemma fetch_and_scan_history:
  assumes "fetch_and_scan env s url d = (ls, s')"
  shows "(logger s' = logger s \<and>
          (\<exists>s2. s' = update_history env s2 url \<and> history_df s2 = history_df s \<and>
                history_file s2 = history_file s)) \<or>
         (logger s' = logger s @ [ErrorScanning url] \<and> ls = [] \<and>
          history_df s' = history_df s \<and> history_file s' = history_file s)"
proof -
  define s1 where "s1 = s\<lparr>requests := requests s @ [GET url], clock := clock s + 1\<rparr>"
  show ?thesis
  proof (cases "http_get env (clock s) url")
    case (Inl e)
    with assms have "ls = []" "s' = s1\<lparr>logger := logger s1 @ [ErrorScanning url]\<rparr>"
      by (simp_all add: fetch_and_scan_def Let_def s1_def)
    then show ?thesis by (simp add: s1_def)
  next
    case (Inr hrefs)
    obtain r s2 where sl: "scan_links env url d hrefs [] s1 = (r, s2)"
      by (cases "scan_links env url d hrefs [] s1")
    from scan_links_frame [OF sl]
    have f: "history_df s2 = history_df s" "history_file s2 = history_file s"
      "logger s2 = logger s"
      by (simp_all add: s1_def)
    show ?thesis
    proof (cases r)
      case (Inl e)
      with assms Inr sl have "ls = []" "s' = s2\<lparr>logger := logger s2 @ [ErrorScanning url]\<rparr>"
        by (simp_all add: fetch_and_scan_def Let_def s1_def)
      with f show ?thesis by simp
    next
      case r: (Inr links)
      with assms Inr sl have "s' = update_history env s2 url"
        by (simp add: fetch_and_scan_def Let_def s1_def)
      with f show ?thesis by (auto simp: update_history_frame)
    qed
  qed
qed

text \<open>
  A batch that starts below the ceiling ends at most nine pages above it, and so does
  the loop.
\<close>

lemma loop_body_visited_bound:
  assumes "fcard (visited_urls s) < max_pages s"
  shows "fcard (visited_urls (snd (loop_body env (to_visit, s)))) \<le> max_pages s + 9"
proof -
  obtain ls s1 where rb: "run_batch env (take 10 to_visit) s = (ls, s1)"
    by (cases "run_batch env (take 10 to_visit) s")
  from run_batch_visited [OF rb]
  have "fcard (visited_urls s1) \<le> fcard (visited_urls s) + length (take 10 to_visit)"
    by simp
  with assms have "fcard (visited_urls s1) \<le> max_pages s + 9" by simp
  then show ?thesis by (simp add: loop_body_def Let_def rb update_progress_def)
qed

lemma start_loop_visited_bound:
  assumes "fcard (visited_urls s) \<le> max_pages s + 9"
  shows "fcard (visited_urls (snd (start_loop env (to_visit, s)))) \<le> max_pages s + 9"
proof -
  have "fcard (visited_urls (snd (start_loop env (to_visit, s)))) \<le> max_pages s + 9 \<and>
        max_pages (snd (start_loop env (to_visit, s))) = max_pages s"
  proof (rule start_loop_rule [where P = "\<lambda>c. fcard (visited_urls (snd c)) \<le> max_pages s + 9 \<and>
        max_pages (snd c) = max_pages s"])
    fix tv :: "(string \<times> nat) list" and t :: scraper
    assume p: "fcard (visited_urls (snd (tv, t))) \<le> max_pages s + 9 \<and>
        max_pages (snd (tv, t)) = max_pages s"
      and g: "fcard (visited_urls t) < max_pages t"
    from loop_body_visited_bound [OF g, of env tv] loop_body_frame [of env tv t] p
    show "fcard (visited_urls (snd (loop_body env (tv, t)))) \<le> max_pages s + 9 \<and>
        max_pages (snd (loop_body env (tv, t))) = max_pages s"
      by simp
  qed (simp add: assms)
  then show ?thesis by simp
qed

section \<open>Dead answers\<close>

text \<open>
  \<open>answered_dead\<close>: at some call between two moments, the HEAD request for an address
  was answered with a status other than 200 or raised a \<^verbatim>\<open>RequestException\<close>.  From a
  state to a later one, \<open>confirmed\<close> says that the rows added to \<^verbatim>\<open>deadlinks\<close> name the
  page scanned and a link so answered in between.  Every method keeps it, and it
  composes.
\<close>

definition answered_dead :: "env \<Rightarrow> nat \<Rightarrow> nat \<Rightarrow> string \<Rightarrow> bool" where
  "answered_dead env lo hi u \<longleftrightarrow>
     (\<exists>t. lo \<le> t \<and> t < hi \<and> http_head env t u \<noteq> Inr 200 \<and>
          http_head env t u \<noteq> Inl OtherException)"

lemma answered_dead_mono:
  "answered_dead env lo hi u \<Longrightarrow> lo' \<le> lo \<Longrightarrow> hi \<le> hi' \<Longrightarrow> answered_dead env lo' hi' u"
  unfolding answered_dead_def by (meson le_trans less_le_trans)

lemma check_link_dead_answer:
  assumes "check_link env s u = (Inr True, s')"
  shows "answered_dead env (clock s) (clock s + 1) u"
  using assms unfolding answered_dead_def
  by (intro exI [of _ "clock s"]) (auto simp: check_link_def Let_def split: sum.splits exn.splits)

definition confirmed :: "env \<Rightarrow> string \<Rightarrow> scraper \<Rightarrow> scraper \<Rightarrow> bool" where
  "confirmed env url s s' \<longleftrightarrow> clock s \<le> clock s' \<and>
     (\<exists>new. deadlinks s' = deadlinks s @ new \<and>
        (\<forall>x\<in>set new. fst x = url \<and> answered_dead env (clock s) (clock s') (snd x)))"

lemma confirmed_refl: "confirmed env url s s"
  by (simp add: confirmed_def)

lemma confirmed_same:
  "deadlinks s' = deadlinks s \<Longrightarrow> clock s \<le> clock s' \<Longrightarrow> confirmed env url s s'"
  by (simp add: confirmed_def)

lemma confirmed_trans:
  assumes "confirmed env url s s1" "confirmed env url s1 s'"
  shows "confirmed env url s s'"
proof -
  from assms(1) obtain n1 where 1: "clock s \<le> clock s1" "deadlinks s1 = deadlinks s @ n1"
    "\<forall>x\<in>set n1. fst x = url \<and> answered_dead env (clock s) (clock s1) (snd x)"
    unfolding confirmed_def by blast
  from assms(2) obtain n2 where 2: "clock s1 \<le> clock s'" "deadlinks s' = deadlinks s1 @ n2"
    "\<forall>x\<in>set n2. fst x = url \<and> answered_dead env (clock s1) (clock s') (snd x)"
    unfolding confirmed_def by blast
  have "\<forall>x\<in>set (n1 @ n2). fst x = url \<and> answered_dead env (clock s) (clock s') (snd x)"
  proof
    fix x assume "x \<in> set (n1 @ n2)"
    then consider "x \<in> set n1" | "x \<in> set n2" by auto
    then show "fst x = url \<and> answered_dead env (clock s) (clock s') (snd x)"
    proof cases
      case 1
      with \<open>\<forall>x\<in>set n1. fst x = url \<and> answered_dead env (clock s) (clock s1) (snd x)\<close>
      have "fst x = url" "answered_dead env (clock s) (clock s1) (snd x)" by simp_all
      with answered_dead_mono [OF this(2) le_refl 2(1)] show ?thesis by simp
    next
      case 2
      with \<open>\<forall>x\<in>set n2. fst x = url \<and> answered_dead env (clock s1) (clock s') (snd x)\<close>
      have "fst x = url" "answered_dead env (clock s1) (clock s') (snd x)" by simp_all
      with answered_dead_mono [OF this(2) 1(1) le_refl] show ?thesis by simp
    qed
  qed
  moreover have "deadlinks s' = deadlinks s @ (n1 @ n2)" by (simp add: 1(2) 2(2))
  moreover have "clock s \<le> clock s'" using 1(1) 2(1) by simp
  ultimately show ?thesis unfolding confirmed_def by blast
qed


lemma scan_links_confirmed:
  "scan_links env url d hrefs acc s = (r, s') \<Longrightarrow> confirmed env url s s'"
proof (induction hrefs arbitrary: acc s)
  case Nil
  then show ?case by (simp add: confirmed_refl)
next
  case (Cons href hrefs)
  from Cons.prems show ?case
  proof (cases rule: scan_links_Cons_cases)
    case (join_raises e)
    then show ?thesis by (simp add: confirmed_refl)
  next
    case (valid_raises full e)
    then show ?thesis by (simp add: confirmed_refl)
  next
    case (foreign full)
    from Cons.IH [OF foreign(3)] show ?thesis .
  next
    case (check_raises full e s1)
    show ?thesis unfolding check_raises(5)
      by (rule confirmed_same) (simp_all add: check_link_result(1) [OF check_raises(3)])
  next
    case (dead full s1)
    note s1 = check_link_result(1) [OF dead(3)]
    define s2 where "s2 = save_result (s1\<lparr>deadlinks := deadlinks s1 @ [(url, full)]\<rparr>) (url, full)"
    have s2: "deadlinks s2 = deadlinks s @ [(url, full)]" "clock s2 = clock s + 1"
      by (simp_all add: s2_def s1 save_result_def)
    have "confirmed env url s s2"
      unfolding confirmed_def
      using check_link_dead_answer [OF dead(3)] by (simp add: s2)
    moreover have "confirmed env url s2 s'"
      by (rule Cons.IH [OF dead(4) [folded s2_def]])
    ultimately show ?thesis by (rule confirmed_trans)
  next
    case (alive_new full s1)
    have "confirmed env url s s1"
      by (rule confirmed_same) (simp_all add: check_link_result(1) [OF alive_new(3)])
    moreover have "confirmed env url s1 s'" by (rule Cons.IH [OF alive_new(5)])
    ultimately show ?thesis by (rule confirmed_trans)
  next
    case (alive_seen full s1)
    have "confirmed env url s s1"
      by (rule confirmed_same) (simp_all add: check_link_result(1) [OF alive_seen(3)])
    moreover have "confirmed env url s1 s'" by (rule Cons.IH [OF alive_seen(5)])
    ultimately show ?thesis by (rule confirmed_trans)
  qed
qed

lemma update_history_clock: "clock (update_history env s url) = clock s + 1"
  by (simp add: update_history_def save_history_def Let_def)

lemma fetch_and_scan_confirmed:
  assumes "fetch_and_scan env s url d = (ls, s')"
  shows "confirmed env url s s'"
proof -
  define s1 where "s1 = s\<lparr>requests := requests s @ [GET url], clock := clock s + 1\<rparr>"
  have a: "confirmed env url s s1"
    by (rule confirmed_same) (simp_all add: s1_def)
  show ?thesis
  proof (cases "http_get env (clock s) url")
    case (Inl e)
    with assms have "s' = s1\<lparr>logger := logger s1 @ [ErrorScanning url]\<rparr>"
      by (simp add: fetch_and_scan_def Let_def s1_def)
    then have "confirmed env url s1 s'" by (intro confirmed_same) simp_all
    with a show ?thesis by (rule confirmed_trans)
  next
    case (Inr hrefs)
    obtain r s2 where sl: "scan_links env url d hrefs [] s1 = (r, s2)"
      by (cases "scan_links env url d hrefs [] s1")
    from a scan_links_confirmed [OF sl] have b: "confirmed env url s s2"
      by (rule confirmed_trans)
    show ?thesis
    proof (cases r)
      case (Inl e)
      with assms Inr sl have "s' = s2\<lparr>logger := logger s2 @ [ErrorScanning url]\<rparr>"
        by (simp add: fetch_and_scan_def Let_def s1_def)
      then have "confirmed env url s2 s'" by (intro confirmed_same) simp_all
      with b show ?thesis by (rule confirmed_trans)
    next
      case r: (Inr links)
      with assms Inr sl have "s' = update_history env s2 url"
        by (simp add: fetch_and_scan_def Let_def s1_def)
      then have "confirmed env url s2 s'"
        by (intro confirmed_same) (simp_all add: update_history_frame update_history_clock)
      with b show ?thesis by (rule confirmed_trans)
    qed
  qed
qed

lemma scrape_page_confirmed:
  assumes "scrape_page env s url d f = (ls, s')"
  shows "confirmed env url s s'"
  using assms
proof (cases rule: scrape_page_cases)
  case dropped
  then show ?thesis by (simp add: confirmed_refl)
next
  case (skipped s1)
  from scanned_recently_frame [OF skipped(4)] have "clock s1 \<le> clock s'" by auto
  then show ?thesis
    by (intro confirmed_same)
      (simp_all add: scanned_recently_fields [OF skipped(4)] skipped(3))
next
  case (fetched s1 s2)
  from scanned_recently_frame [OF fetched(4)] have "clock s1 \<le> clock s2" by auto
  then have "confirmed env url s (update_progress s2 (Scanning url d))"
    by (intro confirmed_same)
      (simp_all add: update_progress_fields scanned_recently_fields [OF fetched(4)] fetched(3))
  with fetch_and_scan_confirmed [OF fetched(5)] show ?thesis
    by (rule confirmed_trans [rotated])
qed


definition confirmed_ok :: "env \<Rightarrow> (string \<times> string) list \<Rightarrow> nat \<Rightarrow> scraper \<Rightarrow> bool" where
  "confirmed_ok env loaded c0 s \<longleftrightarrow> c0 \<le> clock s \<and>
     (\<exists>new. deadlinks s = loaded @ new \<and>
        (\<forall>x\<in>set new. answered_dead env c0 (clock s) (snd x)))"

lemma confirmed_ok_step:
  assumes "confirmed_ok env loaded c0 s" "confirmed env url s s'"
  shows "confirmed_ok env loaded c0 s'"
proof -
  from assms(1) obtain n1 where 1: "c0 \<le> clock s" "deadlinks s = loaded @ n1"
    "\<forall>x\<in>set n1. answered_dead env c0 (clock s) (snd x)"
    unfolding confirmed_ok_def by blast
  from assms(2) obtain n2 where 2: "clock s \<le> clock s'" "deadlinks s' = deadlinks s @ n2"
    "\<forall>x\<in>set n2. fst x = url \<and> answered_dead env (clock s) (clock s') (snd x)"
    unfolding confirmed_def by blast
  have "\<forall>x\<in>set (n1 @ n2). answered_dead env c0 (clock s') (snd x)"
  proof
    fix x assume "x \<in> set (n1 @ n2)"
    then consider "x \<in> set n1" | "x \<in> set n2" by auto
    then show "answered_dead env c0 (clock s') (snd x)"
    proof cases
      case 1
      with \<open>\<forall>x\<in>set n1. answered_dead env c0 (clock s) (snd x)\<close>
      have "answered_dead env c0 (clock s) (snd x)" by simp
      from answered_dead_mono [OF this le_refl 2(1)] show ?thesis .
    next
      case 2
      with \<open>\<forall>x\<in>set n2. fst x = url \<and> answered_dead env (clock s) (clock s') (snd x)\<close>
      have "answered_dead env (clock s) (clock s') (snd x)" by simp
      from answered_dead_mono [OF this \<open>c0 \<le> clock s\<close> le_refl] show ?thesis .
    qed
  qed
  moreover have "deadlinks s' = loaded @ (n1 @ n2)" by (simp add: 1(2) 2(2))
  moreover have "c0 \<le> clock s'" using 1(1) 2(1) by simp
  ultimately show ?thesis unfolding confirmed_ok_def by blast
qed

lemma confirmed_ok_progress:
  "confirmed_ok env loaded c0 s \<Longrightarrow> confirmed_ok env loaded c0 (update_progress s m)"
  "confirmed_ok env loaded c0 s \<Longrightarrow> confirmed_ok env loaded c0 (s\<lparr>logger := l\<rparr>)"
  by (simp_all add: confirmed_ok_def update_progress_fields)

text \<open>
  On a site whose answer to a HEAD request does not change with time, every address
  a HEAD request was sent for answers 200, or raises something else than a
  \<^verbatim>\<open>RequestException\<close>, or is in a row of \<^verbatim>\<open>deadlinks\<close>; and every visited page was
  visited before, or is the base URL, or answers 200.
\<close>

definition recorded :: "env \<Rightarrow> scraper \<Rightarrow> bool" where
  "recorded env s \<longleftrightarrow>
     (\<forall>u. HEAD u \<in> set (requests s) \<longrightarrow>
        http_head env 0 u = Inr 200 \<or> http_head env 0 u = Inl OtherException \<or>
        u \<in> snd ` set (deadlinks s))"

lemma recorded_same:
  "recorded env s \<Longrightarrow> set (requests s') \<subseteq> insert (GET url) (set (requests s))
   \<Longrightarrow> deadlinks s' = deadlinks s \<Longrightarrow> recorded env s'"
  unfolding recorded_def by auto

lemma recorded_scan_links:
  assumes static: "\<forall>t u. http_head env t u = http_head env 0 u"
  shows "recorded env s \<Longrightarrow> scan_links env url d hrefs acc s = (r, s') \<Longrightarrow> recorded env s'"
proof (induction hrefs arbitrary: acc s)
  case Nil
  then show ?case by simp
next
  case (Cons href hrefs)
  from Cons.prems(2) show ?case
  proof (cases rule: scan_links_Cons_cases)
    case (join_raises e)
    with Cons.prems(1) show ?thesis by simp
  next
    case (valid_raises full e)
    with Cons.prems(1) show ?thesis by simp
  next
    case (foreign full)
    from Cons.IH [OF Cons.prems(1) foreign(3)] show ?thesis .
  next
    case (check_raises full e s1)
    note s1 = check_link_result(1) [OF check_raises(3)]
    from check_raises(3) have "http_head env (clock s) full = Inl OtherException"
      by (auto simp: check_link_def Let_def split: sum.splits exn.splits)
    moreover from static have "http_head env (clock s) full = http_head env 0 full" by blast
    ultimately have "http_head env 0 full = Inl OtherException" by simp
    with Cons.prems(1) show ?thesis
      unfolding recorded_def check_raises(5) by (auto simp: s1)
  next
    case (dead full s1)
    note s1 = check_link_result(1) [OF dead(3)]
    define s2 where "s2 = save_result (s1\<lparr>deadlinks := deadlinks s1 @ [(url, full)]\<rparr>) (url, full)"
    have s2: "requests s2 = requests s @ [HEAD full]" "deadlinks s2 = deadlinks s @ [(url, full)]"
      by (simp_all add: s2_def s1 save_result_def)
    from Cons.prems(1) have "recorded env s2"
      unfolding recorded_def by (auto simp: s2)
    from Cons.IH [OF this dead(4) [folded s2_def]] show ?thesis .
  next
    case (alive_new full s1)
    note s1 = check_link_result(1) [OF alive_new(3)]
    from check_link_result(3) [OF alive_new(3)]
    have "http_head env (clock s) full = Inr 200" by simp
    moreover from static have "http_head env (clock s) full = http_head env 0 full" by blast
    ultimately have "http_head env 0 full = Inr 200" by simp
    with Cons.prems(1) have "recorded env s1"
      unfolding recorded_def by (auto simp: s1)
    from Cons.IH [OF this alive_new(5)] show ?thesis .
  next
    case (alive_seen full s1)
    note s1 = check_link_result(1) [OF alive_seen(3)]
    from check_link_result(3) [OF alive_seen(3)]
    have "http_head env (clock s) full = Inr 200" by simp
    moreover from static have "http_head env (clock s) full = http_head env 0 full" by blast
    ultimately have "http_head env 0 full = Inr 200" by simp
    with Cons.prems(1) have "recorded env s1"
      unfolding recorded_def by (auto simp: s1)
    from Cons.IH [OF this alive_seen(5)] show ?thesis .
  qed
qed

lemma recorded_fetch_and_scan:
  assumes static: "\<forall>t u. http_head env t u = http_head env 0 u"
    and "recorded env s" "fetch_and_scan env s url d = (ls, s')"
  shows "recorded env s'"
proof -
  define s1 where "s1 = s\<lparr>requests := requests s @ [GET url], clock := clock s + 1\<rparr>"
  from assms(2) have a: "recorded env s1"
    by (rule recorded_same [where url = url]) (auto simp: s1_def)
  show ?thesis
  proof (cases "http_get env (clock s) url")
    case (Inl e)
    with assms(3) have "s' = s1\<lparr>logger := logger s1 @ [ErrorScanning url]\<rparr>"
      by (simp add: fetch_and_scan_def Let_def s1_def)
    with a show ?thesis by (simp add: recorded_def)
  next
    case (Inr hrefs)
    obtain r s2 where sl: "scan_links env url d hrefs [] s1 = (r, s2)"
      by (cases "scan_links env url d hrefs [] s1")
    from recorded_scan_links [OF static a sl] have b: "recorded env s2" .
    show ?thesis
    proof (cases r)
      case (Inl e)
      with assms(3) Inr sl have "s' = s2\<lparr>logger := logger s2 @ [ErrorScanning url]\<rparr>"
        by (simp add: fetch_and_scan_def Let_def s1_def)
      with b show ?thesis by (simp add: recorded_def)
    next
      case r: (Inr links)
      with assms(3) Inr sl have "s' = update_history env s2 url"
        by (simp add: fetch_and_scan_def Let_def s1_def)
      with b show ?thesis by (simp add: recorded_def update_history_frame)
    qed
  qed
qed

lemma recorded_scrape_page:
  assumes static: "\<forall>t u. http_head env t u = http_head env 0 u"
    and "recorded env s" "scrape_page env s url d f = (ls, s')"
  shows "recorded env s'"
  using assms(3)
proof (cases rule: scrape_page_cases)
  case dropped
  with assms(2) show ?thesis by simp
next
  case (skipped s1)
  from assms(2) show ?thesis
    by (simp add: recorded_def scanned_recently_fields [OF skipped(4)] skipped(3))
next
  case (fetched s1 s2)
  from assms(2) have "recorded env (update_progress s2 (Scanning url d))"
    by (simp add: recorded_def update_progress_fields scanned_recently_fields [OF fetched(4)]
          fetched(3))
  from recorded_fetch_and_scan [OF static this fetched(5)] show ?thesis .
qed

definition visited_alive :: "env \<Rightarrow> scraper \<Rightarrow> scraper \<Rightarrow> bool" where
  "visited_alive env s0 s \<longleftrightarrow>
     (\<forall>u. u |\<in>| visited_urls s \<longrightarrow>
        u |\<in>| visited_urls s0 \<or> u = base_url s0 \<or> http_head env 0 u = Inr 200)"

lemma visited_alive_scrape_page:
  assumes "visited_alive env s0 s" "url = base_url s0 \<or> http_head env 0 url = Inr 200"
    "scrape_page env s url d f = (ls, s')"
  shows "visited_alive env s0 s'"
  using scrape_page_visited [OF assms(3)] assms(1,2)
  by (auto simp: visited_alive_def split: if_splits)






section \<open>A small site\<close>

text \<open>
  The site used in the examples.  Its front page \<^verbatim>\<open>http://a/\<close> links to \<^verbatim>\<open>ok\<close> (alive,
  and linking back to the front page), to \<^verbatim>\<open>missing\<close> (status 404), to the foreign
  \<^verbatim>\<open>http://b/\<close>, and to \<^verbatim>\<open>down\<close>, which answers a HEAD with 200 and lets a GET time out.
  The time is twenty days after the epoch, plus one microsecond for each call made.
  \<open>ex_urljoin\<close> and \<open>ex_netloc\<close> agree with \<^verbatim>\<open>urljoin\<close> and \<^verbatim>\<open>urlparse\<close> on the addresses
  of this site.
\<close>

definition ex_urljoin :: "string \<Rightarrow> string \<Rightarrow> exn + string" where
  "ex_urljoin url href =
     (if take 7 href = ''http://'' then Inr href
      else Inr (rev (dropWhile (\<lambda>c. c \<noteq> CHR ''/'') (rev url)) @ href))"

definition ex_netloc :: "string \<Rightarrow> exn + string" where
  "ex_netloc url = Inr (takeWhile (\<lambda>c. c \<noteq> CHR ''/'') (drop 7 url))"

definition site_a :: env where
  "site_a =
     \<lparr>http_get = (\<lambda>t url.
          if url = ''http://a/'' then Inr [''ok'', ''missing'', ''http://b/'', ''down'']
          else if url = ''http://a/ok'' then Inr [''http://a/'']
          else Inl RequestException),
      http_head = (\<lambda>t url.
          if url = ''http://a/'' \<or> url = ''http://a/ok'' \<or> url = ''http://a/down''
          then Inr 200 else Inr 404),
      now = (\<lambda>t. 20 * 86400000000 + int t),
      urljoin = ex_urljoin,
      netloc = ex_netloc\<rparr>"

definition new_a :: scraper where
  "new_a = init ''http://a/'' [] []"

text \<open>
  \<open>old_a\<close> is an object for the small site with a history: the front page scanned
  just now, \<^verbatim>\<open>ok\<close> five days ago, \<^verbatim>\<open>down\<close> twenty days ago.
\<close>

definition old_a :: scraper where
  "old_a = init ''http://a/'' []
     [(''http://a/'', 20 * 86400000000), (''http://a/ok'', 15 * 86400000000),
      (''http://a/down'', 0)]"

lemmas site_a_defs = site_a_def ex_urljoin_def ex_netloc_def new_a_def

lemmas model_defs =
  init_def setup_scraper_def load_history_def load_existing_results_def
  is_valid_url_def endswith_def check_link_def save_result_def save_history_def
  update_history_def update_progress_def rescan_window_def fetch_and_scan_def
  scanned_recently_def scrape_page_def loop_body_def start_loop.simps start_scraping_def
  Let_def fcard_finsert_if fcard_fempty


section \<open>The link validator\<close>

text \<open>
  Claim C4.  \<^verbatim>\<open>check_link\<close> reports a link dead exactly when the HEAD request answers
  with a status other than 200 or raises a \<^verbatim>\<open>RequestException\<close> (the class of the
  network and timeout errors of the library), and reports it alive exactly when the
  answer is 200.  It sends one HEAD request whatever the outcome: a failed check is
  neither dropped nor tried again.
\<close>

theorem check_link_fail_closed:
  "(fst (check_link env s url) = Inr True \<longleftrightarrow>
      (\<exists>status_code. http_head env (clock s) url = Inr status_code \<and> status_code \<noteq> 200) \<or>
      http_head env (clock s) url = Inl RequestException) \<and>
   (fst (check_link env s url) = Inr False \<longleftrightarrow> http_head env (clock s) url = Inr 200) \<and>
   requests (snd (check_link env s url)) = requests s @ [HEAD url]"
  by (auto simp: check_link_def Let_def split: sum.splits exn.splits)

theorem check_link_fail_closed_witness:
  "fst (check_link site_a new_a ''http://a/missing'') = Inr True \<and>
   fst (check_link site_a new_a ''http://a/ok'') = Inr False \<and>
   fst (check_link (site_a\<lparr>http_head := \<lambda>t url. Inl RequestException\<rparr>) new_a ''http://a/ok'')
     = Inr True"
  using check_link_fail_closed [of site_a new_a "''http://a/missing''"]
    check_link_fail_closed [of site_a new_a "''http://a/ok''"]
    check_link_fail_closed [of "site_a\<lparr>http_head := \<lambda>t url. Inl RequestException\<rparr>" new_a
      "''http://a/ok''"]
  by (simp add: site_a_defs)

section \<open>The page ceiling\<close>

text \<open>
  Claim C10.  On an object that has not crawled yet, the crawl ends with at most
  \<open>max_pages + 9\<close> visited pages, and no line of the status line, written after a page
  is marked visited and after every batch, reports more: the ceiling is tested between
  batches only, a batch has at most ten entries, and a batch adds at most one page for
  each of its entries.
\<close>

theorem visited_below_ceiling_plus_batch:
  assumes "visited_urls s = {||}" and "stdout s = []"
  shows "fcard (visited_urls (start_scraping env s)) \<le> max_pages s + 9 \<and>
         (\<forall>p\<in>set (stdout (start_scraping env s)). scanned p \<le> max_pages s + 9) \<and>
         fcard (visited_urls (snd (run_batch env batch s))) \<le> fcard (visited_urls s) + length batch"
proof -
  obtain to_visit s1 where sl: "start_loop env ([(base_url s, 0)], s) = (to_visit, s1)"
    by (cases "start_loop env ([(base_url s, 0)], s)")
  from assms have "counts_ok s" "fcard (visited_urls s) \<le> max_pages s + 9"
    by (simp_all add: counts_ok_def fcard_fempty)
  from start_loop_ceiling [OF this sl]
  have c: "counts_ok s1" and v: "fcard (visited_urls s1) \<le> max_pages s + 9" by simp_all
  from c have "counts_ok (update_progress s1 Completed)" by (rule counts_ok_progress)
  with v have "fcard (visited_urls (start_scraping env s)) \<le> max_pages s + 9"
    and "\<forall>p\<in>set (stdout (start_scraping env s)). scanned p \<le> max_pages s + 9"
    by (auto simp: start_scraping_def sl Let_def counts_ok_def update_progress_def)
  moreover obtain ls s2 where rb: "run_batch env batch s = (ls, s2)"
    by (cases "run_batch env batch s")
  from run_batch_visited [OF rb]
  have "fcard (visited_urls (snd (run_batch env batch s))) \<le> fcard (visited_urls s) + length batch"
    by (simp add: rb)
  ultimately show ?thesis by simp
qed

theorem visited_below_ceiling_plus_batch_witness:
  "visited_urls new_a = {||} \<and> stdout new_a = [] \<and>
   fcard (visited_urls (start_scraping site_a new_a)) = 3 \<and>
   fcard (visited_urls (start_scraping site_a new_a)) \<le> max_pages new_a + 9 \<and>
   map scanned (stdout (start_scraping site_a new_a)) = [1, 1, 2, 3, 3, 3] \<and>
   list_all (\<lambda>p. scanned p \<le> max_pages new_a + 9) (stdout (start_scraping site_a new_a))"
  using visited_below_ceiling_plus_batch [of new_a site_a "[]"]
  by (simp add: model_defs site_a_defs)

text \<open>
  Claim C1, as amended.  The size of \<^verbatim>\<open>visited_urls\<close> is compared with \<open>max_pages\<close>
  between batches only.  When the ceiling is reached the loop stops and dispatches
  nothing; below the ceiling, with a queue that is not empty, it runs one more batch;
  it ends with an empty queue or with the ceiling reached; and a batch is never cut
  short: each of its entries within the depth limit is a visited page after the batch,
  whatever the ceiling.  The size can therefore pass \<open>max_pages\<close>, as it does on the
  small site with a ceiling of two pages, but a loop that starts with at most
  \<open>max_pages + 9\<close> visited pages ends with at most as many.
\<close>

theorem ceiling_tested_between_batches:
  "(max_pages s \<le> fcard (visited_urls s) \<longrightarrow> start_loop env (to_visit, s) = (to_visit, s)) \<and>
   (to_visit \<noteq> [] \<and> fcard (visited_urls s) < max_pages s \<longrightarrow>
      start_loop env (to_visit, s) = start_loop env (loop_body env (to_visit, s))) \<and>
   (fst (start_loop env (to_visit, s)) = [] \<or>
      max_pages s \<le> fcard (visited_urls (snd (start_loop env (to_visit, s))))) \<and>
   (\<forall>(url, depth)\<in>set batch. depth \<le> max_depth s \<longrightarrow>
      url |\<in>| visited_urls (snd (run_batch env batch s))) \<and>
   (fcard (visited_urls s) \<le> max_pages s + 9 \<longrightarrow>
      fcard (visited_urls (snd (start_loop env (to_visit, s)))) \<le> max_pages s + 9)"
proof (intro conjI)
  show "max_pages s \<le> fcard (visited_urls s) \<longrightarrow> start_loop env (to_visit, s) = (to_visit, s)"
    by (simp add: start_loop_stop)
  show "to_visit \<noteq> [] \<and> fcard (visited_urls s) < max_pages s \<longrightarrow>
      start_loop env (to_visit, s) = start_loop env (loop_body env (to_visit, s))"
    by (simp add: start_loop_step)
  from start_loop_exit [of env "(to_visit, s)"] start_loop_frame [of env to_visit s]
  show "fst (start_loop env (to_visit, s)) = [] \<or>
      max_pages s \<le> fcard (visited_urls (snd (start_loop env (to_visit, s))))"
    by simp
  show "\<forall>(url, depth)\<in>set batch. depth \<le> max_depth s \<longrightarrow>
      url |\<in>| visited_urls (snd (run_batch env batch s))"
  proof (cases "run_batch env batch s")
    case (Pair ls s')
    with run_batch_all_dispatched [OF Pair] show ?thesis by auto
  qed
  show "fcard (visited_urls s) \<le> max_pages s + 9 \<longrightarrow>
      fcard (visited_urls (snd (start_loop env (to_visit, s)))) \<le> max_pages s + 9"
    by (simp add: start_loop_visited_bound)
qed

theorem ceiling_tested_between_batches_witness:
  "max_pages (new_a\<lparr>max_pages := 0\<rparr>) \<le> fcard (visited_urls (new_a\<lparr>max_pages := 0\<rparr>)) \<and>
   start_loop site_a ([(''http://a/'', 0)], new_a\<lparr>max_pages := 0\<rparr>)
     = ([(''http://a/'', 0)], new_a\<lparr>max_pages := 0\<rparr>) \<and>
   fcard (visited_urls new_a) < max_pages new_a \<and>
   start_loop site_a ([(''http://a/'', 0)], new_a)
     = start_loop site_a (loop_body site_a ([(''http://a/'', 0)], new_a)) \<and>
   fst (start_loop site_a ([(''http://a/'', 0)], new_a)) = [] \<and>
   (0::nat) \<le> max_depth new_a \<and>
   ''http://a/'' |\<in>| visited_urls (snd (run_batch site_a [(''http://a/'', 0)] new_a)) \<and>
   fcard (visited_urls (new_a\<lparr>max_pages := 2\<rparr>)) \<le> max_pages (new_a\<lparr>max_pages := 2\<rparr>) + 9 \<and>
   fcard (visited_urls (snd (start_loop site_a ([(''http://a/'', 0)], new_a\<lparr>max_pages := 2\<rparr>))))
     = 3 \<and>
   fcard (visited_urls (snd (start_loop site_a ([(''http://a/'', 0)], new_a\<lparr>max_pages := 2\<rparr>))))
     \<le> max_pages (new_a\<lparr>max_pages := 2\<rparr>) + 9"
  using ceiling_tested_between_batches [of "new_a\<lparr>max_pages := 0\<rparr>" site_a "[(''http://a/'', 0)]" "[]"]
    ceiling_tested_between_batches [of new_a site_a "[(''http://a/'', 0)]" "[(''http://a/'', 0)]"]
    ceiling_tested_between_batches [of "new_a\<lparr>max_pages := 2\<rparr>" site_a "[(''http://a/'', 0)]" "[]"]
  by (simp add: model_defs site_a_defs)

theorem visited_exceeds_ceiling_counterexample:
  "\<not> fcard (visited_urls (start_scraping site_a (new_a\<lparr>max_pages := 2\<rparr>)))
       \<le> max_pages (new_a\<lparr>max_pages := 2\<rparr>)"
  by (simp add: model_defs site_a_defs)

section \<open>The depth limit\<close>




section \<open>The scope\<close>




section \<open>The dead links of earlier runs\<close>

text \<open>
  Claim C9, as amended.  \<^verbatim>\<open>__init__\<close> loads the rows of the results file into
  \<^verbatim>\<open>deadlinks\<close>, so the list is empty at the start of a crawl only when the file has
  no row.  The crawl appends rows to the list, and the file holds the rows of the
  list.  Each appended row names a page fetched in this crawl and a link for which a
  HEAD request was sent in this crawl and was answered, at a call made during this
  crawl, with a status other than 200 or with a \<^verbatim>\<open>RequestException\<close>.  The count of dead
  links on the last status line is the number of rows loaded plus the number of rows
  appended.
\<close>

theorem deadlinks_loaded_then_appended:
  "deadlinks (init url results history) = results \<and>
   (\<exists>new. deadlinks (start_scraping env (init url results history)) = results @ new \<and>
      mset (results_file (start_scraping env (init url results history)))
        = mset (deadlinks (start_scraping env (init url results history))) \<and>
      (\<forall>(source, deadlink)\<in>set new.
         GET source \<in> set (requests (start_scraping env (init url results history))) \<and>
         HEAD deadlink \<in> set (requests (start_scraping env (init url results history))) \<and>
         (\<exists>t<clock (start_scraping env (init url results history)).
            http_head env t deadlink \<noteq> Inr 200 \<and>
            http_head env t deadlink \<noteq> Inl OtherException)) \<and>
      found (last (stdout (start_scraping env (init url results history))))
        = length results + length new)"
proof -
  let ?s = "init url results history"
  let ?f = "start_scraping env ?s"
  have i: "deadlinks ?s = results" "results_file ?s = results" "clock ?s = 0"
    by (simp_all add: init_def setup_scraper_def load_history_def load_existing_results_def)
  have "dead_ok results ?f"
  proof (rule start_scraping_inv [where I = "dead_ok results" and F = "\<lambda>e. True"])
    show "dead_ok results ?s" by (simp add: dead_ok_def i)
  qed (simp_all add: dead_ok_scrape_page dead_ok_progress)
  then obtain new where new: "deadlinks ?f = results @ new" "results_file ?f = results @ new"
    "\<forall>(source, deadlink)\<in>set new. GET source \<in> set (requests ?f) \<and>
        HEAD deadlink \<in> set (requests ?f)"
    by (auto simp: dead_ok_def)
  have "confirmed_ok env results 0 ?f"
  proof (rule start_scraping_inv [where I = "confirmed_ok env results 0" and F = "\<lambda>e. True"])
    show "confirmed_ok env results 0 ?s" by (simp add: confirmed_ok_def i)
    show "\<And>t url d ls t'. \<lbrakk>confirmed_ok env results 0 t; True;
        scrape_page env t url d (url = base_url t) = (ls, t')\<rbrakk>
       \<Longrightarrow> confirmed_ok env results 0 t' \<and> (\<forall>e\<in>set ls. True)"
      using confirmed_ok_step scrape_page_confirmed by blast
  qed (simp_all add: confirmed_ok_progress)
  then obtain new' where new': "deadlinks ?f = results @ new'"
    "\<forall>x\<in>set new'. answered_dead env 0 (clock ?f) (snd x)"
    unfolding confirmed_ok_def by blast
  from new(1) new'(1) have "new' = new" by simp
  with new'(2) have a: "\<forall>x\<in>set new. \<exists>t<clock ?f.
      http_head env t (snd x) \<noteq> Inr 200 \<and> http_head env t (snd x) \<noteq> Inl OtherException"
    unfolding answered_dead_def by blast
  have "\<forall>(source, deadlink)\<in>set new.
         GET source \<in> set (requests ?f) \<and> HEAD deadlink \<in> set (requests ?f) \<and>
         (\<exists>t<clock ?f. http_head env t deadlink \<noteq> Inr 200 \<and>
            http_head env t deadlink \<noteq> Inl OtherException)"
  proof
    fix x assume x: "x \<in> set new"
    with new(3) have "GET (fst x) \<in> set (requests ?f)" "HEAD (snd x) \<in> set (requests ?f)"
      by (cases x, auto)+
    moreover from a x have "\<exists>t<clock ?f.
      http_head env t (snd x) \<noteq> Inr 200 \<and> http_head env t (snd x) \<noteq> Inl OtherException"
      by simp
    ultimately show "case x of (source, deadlink) \<Rightarrow>
         GET source \<in> set (requests ?f) \<and> HEAD deadlink \<in> set (requests ?f) \<and>
         (\<exists>t<clock ?f. http_head env t deadlink \<noteq> Inr 200 \<and>
            http_head env t deadlink \<noteq> Inl OtherException)"
      by (cases x) simp
  qed
  moreover from start_scraping_last_line [of env ?s] new(1)
  have "found (last (stdout ?f)) = length results + length new" by simp
  moreover have "mset (results_file ?f) = mset (deadlinks ?f)" by (simp add: new(1,2))
  ultimately show ?thesis using new(1) i(1) by blast
qed

theorem deadlinks_loaded_then_appended_witness:
  "deadlinks (init ''http://a/'' [(''http://a/'', ''http://a/old'')] [])
     = [(''http://a/'', ''http://a/old'')] \<and>
   deadlinks (start_scraping site_a (init ''http://a/'' [(''http://a/'', ''http://a/old'')] []))
     = [(''http://a/'', ''http://a/old'')] @ [(''http://a/'', ''http://a/missing'')] \<and>
   results_file (start_scraping site_a (init ''http://a/'' [(''http://a/'', ''http://a/old'')] []))
     = [(''http://a/'', ''http://a/old''), (''http://a/'', ''http://a/missing'')] \<and>
   GET ''http://a/'' \<in> set (requests (start_scraping site_a
      (init ''http://a/'' [(''http://a/'', ''http://a/old'')] []))) \<and>
   HEAD ''http://a/missing'' \<in> set (requests (start_scraping site_a
      (init ''http://a/'' [(''http://a/'', ''http://a/old'')] []))) \<and>
   2 < clock (start_scraping site_a (init ''http://a/'' [(''http://a/'', ''http://a/old'')] [])) \<and>
   http_head site_a 2 ''http://a/missing'' = Inr 404 \<and>
   found (last (stdout (start_scraping site_a
      (init ''http://a/'' [(''http://a/'', ''http://a/old'')] [])))) = 2"
  using deadlinks_loaded_then_appended
    [of "''http://a/''" "[(''http://a/'', ''http://a/old'')]" "[]" site_a]
  by (simp add: model_defs site_a_defs)

theorem deadlinks_not_empty_at_start_counterexample:
  "deadlinks (init ''http://a/'' [(''http://a/'', ''http://a/old'')] []) \<noteq> [] \<and>
   HEAD ''http://a/old'' \<notin> set (requests (start_scraping site_a
      (init ''http://a/'' [(''http://a/'', ''http://a/old'')] []))) \<and>
   (''http://a/'', ''http://a/old'') \<in> set (deadlinks (start_scraping site_a
      (init ''http://a/'' [(''http://a/'', ''http://a/old'')] [])))"
  by (simp add: model_defs site_a_defs)

section \<open>Dead links are not visited pages\<close>

text \<open>
  A link that passes \<^verbatim>\<open>is_valid_url\<close> and fails \<^verbatim>\<open>check_link\<close> is recorded by the loop over
  the links of the page, which leaves the visited pages alone.
\<close>

lemma scan_links_dead_recorded:
  assumes full: "urljoin env url href = Inr full_url"
    and valid: "is_valid_url env s full_url = Inr True"
    and dead: "fst (check_link env s full_url) = Inr True"
  shows "(url, full_url) \<in> set (deadlinks (snd (scan_links env url depth (href # hrefs) internal_links s)))"
    and "(url, full_url) \<in> set (results_file (snd (scan_links env url depth (href # hrefs) internal_links s)))"
    and "visited_urls (snd (scan_links env url depth (href # hrefs) internal_links s)) = visited_urls s"
proof -
  obtain s1 where cl: "check_link env s full_url = (Inr True, s1)"
    using dead by (cases "check_link env s full_url") simp
  let ?s2 = "save_result (s1\<lparr>deadlinks := deadlinks s1 @ [(url, full_url)]\<rparr>) (url, full_url)"
  obtain r s' where sl: "scan_links env url depth hrefs internal_links ?s2 = (r, s')"
    by (cases "scan_links env url depth hrefs internal_links ?s2")
  have eq: "scan_links env url depth (href # hrefs) internal_links s = (r, s')"
    using full valid cl sl by simp
  from scan_links_effect [OF sl] obtain dead' where
    d: "deadlinks s' = deadlinks ?s2 @ map (Pair url) dead'"
       "results_file s' = results_file ?s2 @ map (Pair url) dead'"
    by blast
  from scan_links_frame [OF sl] have v: "visited_urls s' = visited_urls ?s2" by simp
  from check_link_frame [OF cl] have v1: "visited_urls s1 = visited_urls s" by simp
  show "(url, full_url) \<in> set (deadlinks (snd (scan_links env url depth (href # hrefs) internal_links s)))"
    unfolding eq snd_conv d by (simp add: save_result_def)
  show "(url, full_url) \<in> set (results_file (snd (scan_links env url depth (href # hrefs) internal_links s)))"
    unfolding eq snd_conv d by (simp add: save_result_def)
  show "visited_urls (snd (scan_links env url depth (href # hrefs) internal_links s)) = visited_urls s"
    unfolding eq snd_conv v by (simp add: v1 save_result_def)
qed

text \<open>
  What a crawl records, fetches and visits on a site whose answers to HEAD requests do
  not change.
\<close>

lemma dead_links_of_crawl:
  "visited_urls (snd (scrape_page env s url depth force_scan))
     |\<subseteq>| finsert url (visited_urls s) \<and>
   ((\<forall>t u. http_head env t u = http_head env 0 u) \<and> requests s = [] \<longrightarrow>
      (\<forall>u. HEAD u \<in> set (requests (start_scraping env s)) \<and>
            fst (check_link env s u) = Inr True \<longrightarrow>
            u \<in> snd ` set (deadlinks (start_scraping env s))) \<and>
      (\<forall>(source, deadlink)
          \<in>set (drop (length (deadlinks s)) (deadlinks (start_scraping env s))).
         fst (check_link env s deadlink) = Inr True) \<and>
      (\<forall>u. http_head env 0 u \<noteq> Inr 200 \<and> u \<noteq> base_url s \<longrightarrow>
         u \<notin> set (fetched_urls (requests (start_scraping env s))) \<and>
         u \<notin> fst ` set (fst (start_loop env ([(base_url s, 0)], s))) \<and>
         (u |\<in>| visited_urls (start_scraping env s) \<longrightarrow> u |\<in>| visited_urls s)))"
proof (intro conjI impI)
  obtain ls s' where sp: "scrape_page env s url depth force_scan = (ls, s')"
    by (cases "scrape_page env s url depth force_scan")
  from scrape_page_visited [OF sp]
  show "visited_urls (snd (scrape_page env s url depth force_scan))
           |\<subseteq>| finsert url (visited_urls s)"
    by (auto simp: sp split: if_splits)
next
  assume a: "(\<forall>t u. http_head env t u = http_head env 0 u) \<and> requests s = []"
  then have static: "\<forall>t u. http_head env t u = http_head env 0 u" and fresh: "requests s = []"
    by simp_all
  let ?c = "start_loop env ([(base_url s, 0)], s)"
  let ?I = "\<lambda>t. alive_ok env s t \<and> recorded env t \<and> visited_alive env s t \<and>
                confirmed_ok env (deadlinks s) (clock s) t"
  let ?F = "\<lambda>e. fst e = base_url s \<or> http_head env 0 (fst e) = Inr 200"
  have inv: "?I (snd ?c) \<and> (\<forall>e\<in>set (fst ?c). ?F e)"
  proof (rule start_loop_inv [where I = ?I and F = ?F])
    show "?I s" using fresh
      by (simp add: alive_ok_def recorded_def visited_alive_def confirmed_ok_def)
    show "\<forall>e\<in>set [(base_url s, 0::nat)]. ?F e" by simp
  next
    fix t url d ls t'
    assume i: "?I t" and f: "?F (url, d)"
      and sp: "scrape_page env t url d (url = base_url t) = (ls, t')"
    from f have f': "url = base_url s \<or> http_head env 0 url = Inr 200" by simp
    from i have i1: "alive_ok env s t" and i2: "recorded env t"
      and i3: "visited_alive env s t" and i4: "confirmed_ok env (deadlinks s) (clock s) t"
      by simp_all
    note alive_ok_scrape_page [OF static i1 f' sp]
    moreover note recorded_scrape_page [OF static i2 sp]
    moreover note visited_alive_scrape_page [OF i3 f' sp]
    moreover note confirmed_ok_step [OF i4 scrape_page_confirmed [OF sp]]
    ultimately show "?I t' \<and> (\<forall>e\<in>set ls. ?F e)" by simp
  next
    fix t n assume "?I t"
    then show "?I (update_progress t (QueueSize n))"
      by (simp add: alive_ok_progress confirmed_ok_progress recorded_def visited_alive_def
            update_progress_fields)
  qed
  have head0: "http_head env t u = http_head env 0 u" for t u
    using static by blast
  have reported: "fst (check_link env s u) = Inr True \<longleftrightarrow>
      http_head env 0 u \<noteq> Inr 200 \<and> http_head env 0 u \<noteq> Inl OtherException" for u
  proof -
    have "fst (check_link env s u) = Inr True \<longleftrightarrow>
      http_head env (clock s) u \<noteq> Inr 200 \<and> http_head env (clock s) u \<noteq> Inl OtherException"
      by (auto simp: check_link_def Let_def split: sum.splits exn.splits)
    then show ?thesis unfolding head0 [of "clock s" u] .
  qed
  from inv have "recorded env (snd ?c)" by simp
  then show "\<forall>u. HEAD u \<in> set (requests (start_scraping env s)) \<and>
            fst (check_link env s u) = Inr True \<longrightarrow>
            u \<in> snd ` set (deadlinks (start_scraping env s))"
    unfolding recorded_def reported start_scraping_fields by blast
  from inv obtain new where new: "deadlinks (snd ?c) = deadlinks s @ new"
    "\<forall>x\<in>set new. answered_dead env (clock s) (clock (snd ?c)) (snd x)"
    unfolding confirmed_ok_def by blast
  have "\<forall>x\<in>set new. fst (check_link env s (snd x)) = Inr True"
  proof
    fix x assume "x \<in> set new"
    with new(2) obtain t where "http_head env t (snd x) \<noteq> Inr 200"
      "http_head env t (snd x) \<noteq> Inl OtherException"
      unfolding answered_dead_def by blast
    then have "http_head env 0 (snd x) \<noteq> Inr 200"
      "http_head env 0 (snd x) \<noteq> Inl OtherException"
      unfolding head0 [of t "snd x"] by simp_all
    then show "fst (check_link env s (snd x)) = Inr True"
      unfolding reported by simp
  qed
  then show "\<forall>(source, deadlink)
          \<in>set (drop (length (deadlinks s)) (deadlinks (start_scraping env s))).
         fst (check_link env s deadlink) = Inr True"
    by (auto simp: start_scraping_fields new(1))
  from inv have got: "\<forall>u\<in>set (fetched_urls (requests (snd ?c))).
                u = base_url s \<or> http_head env 0 u = Inr 200"
    and left: "\<forall>e\<in>set (fst ?c). fst e = base_url s \<or> http_head env 0 (fst e) = Inr 200"
    and vis: "\<forall>u. u |\<in>| visited_urls (snd ?c) \<longrightarrow>
        u |\<in>| visited_urls s \<or> u = base_url s \<or> http_head env 0 u = Inr 200"
    by (auto simp: alive_ok_def visited_alive_def)
  show "\<forall>u. http_head env 0 u \<noteq> Inr 200 \<and> u \<noteq> base_url s \<longrightarrow>
         u \<notin> set (fetched_urls (requests (start_scraping env s))) \<and>
         u \<notin> fst ` set (fst (start_loop env ([(base_url s, 0)], s))) \<and>
         (u |\<in>| visited_urls (start_scraping env s) \<longrightarrow> u |\<in>| visited_urls s)"
    unfolding start_scraping_fields using got left vis by blast
qed

text \<open>
  Claim C6, as amended.  When the loop of \<^verbatim>\<open>scrape_page\<close> comes to a link that passes
  \<^verbatim>\<open>is_valid_url\<close> and that \<^verbatim>\<open>check_link\<close> reports dead, the row of the page and the
  link is in \<^verbatim>\<open>deadlinks\<close> and in the results file when the loop ends, and the loop
  leaves \<^verbatim>\<open>visited_urls\<close> as it was.  \<^verbatim>\<open>scrape_page\<close> adds to \<^verbatim>\<open>visited_urls\<close> at most the
  page it was called for, whatever the object: checking a link marks nothing visited.
  On a site whose answers to HEAD requests do not change during the crawl, and for an
  object that has sent no request yet: every address a HEAD request was sent for and
  that \<^verbatim>\<open>check_link\<close> reports dead is in a row of \<^verbatim>\<open>deadlinks\<close>; every row appended in
  the crawl names a link that \<^verbatim>\<open>check_link\<close> reports dead; and an address that does not
  answer 200, unless it is the base URL, is not fetched, is not left in the queue, and
  is not added to the visited pages.  On the small site the dead link \<^verbatim>\<open>missing\<close> is
  not a visited page after the crawl; and when the front page itself fails its HEAD
  request, it is recorded as dead by the page that links to it, although it has been
  fetched.
\<close>

theorem dead_link_recorded_never_visited:
  "(urljoin env url href = Inr full_url \<and> is_valid_url env s full_url = Inr True \<and>
    fst (check_link env s full_url) = Inr True \<longrightarrow>
      (url, full_url)
        \<in> set (deadlinks (snd (scan_links env url depth (href # hrefs) internal_links s))) \<and>
      (url, full_url)
        \<in> set (results_file (snd (scan_links env url depth (href # hrefs) internal_links s))) \<and>
      visited_urls (snd (scan_links env url depth (href # hrefs) internal_links s))
        = visited_urls s) \<and>
   visited_urls (snd (scrape_page env s url depth force_scan))
     |\<subseteq>| finsert url (visited_urls s) \<and>
   ((\<forall>t u. http_head env t u = http_head env 0 u) \<and> requests s = [] \<longrightarrow>
      (\<forall>u. HEAD u \<in> set (requests (start_scraping env s)) \<and>
            fst (check_link env s u) = Inr True \<longrightarrow>
            u \<in> snd ` set (deadlinks (start_scraping env s))) \<and>
      (\<forall>(source, deadlink)
          \<in>set (drop (length (deadlinks s)) (deadlinks (start_scraping env s))).
         fst (check_link env s deadlink) = Inr True) \<and>
      (\<forall>u. http_head env 0 u \<noteq> Inr 200 \<and> u \<noteq> base_url s \<longrightarrow>
         u \<notin> set (fetched_urls (requests (start_scraping env s))) \<and>
         u \<notin> fst ` set (fst (start_loop env ([(base_url s, 0)], s))) \<and>
         (u |\<in>| visited_urls (start_scraping env s) \<longrightarrow> u |\<in>| visited_urls s)))"
  apply (rule conjI)
   apply (rule impI)
   apply (elim conjE)
   apply (intro conjI)
     apply (erule (2) scan_links_dead_recorded(1))
    apply (erule (2) scan_links_dead_recorded(2))
   apply (erule (2) scan_links_dead_recorded(3))
  apply (rule dead_links_of_crawl)
  done

theorem dead_link_recorded_never_visited_witness:
  "urljoin site_a ''http://a/'' ''missing'' = Inr ''http://a/missing'' \<and>
   is_valid_url site_a new_a ''http://a/missing'' = Inr True \<and>
   fst (check_link site_a new_a ''http://a/missing'') = Inr True \<and>
   (''http://a/'', ''http://a/missing'')
     \<in> set (deadlinks (snd (scan_links site_a ''http://a/'' 0 [''missing'', ''down''] [] new_a))) \<and>
   (''http://a/'', ''http://a/missing'')
     \<in> set (results_file (snd (scan_links site_a ''http://a/'' 0 [''missing'', ''down''] [] new_a))) \<and>
   visited_urls (snd (scan_links site_a ''http://a/'' 0 [''missing'', ''down''] [] new_a))
     = visited_urls new_a \<and>
   (\<forall>t u. http_head site_a t u = http_head site_a 0 u) \<and> requests new_a = [] \<and>
   HEAD ''http://a/missing'' \<in> set (requests (start_scraping site_a new_a)) \<and>
   ''http://a/missing'' \<in> snd ` set (deadlinks (start_scraping site_a new_a)) \<and>
   drop (length (deadlinks new_a)) (deadlinks (start_scraping site_a new_a))
     = [(''http://a/'', ''http://a/missing'')] \<and>
   http_head site_a 0 ''http://a/missing'' \<noteq> Inr 200 \<and>
   ''http://a/missing'' \<noteq> base_url new_a \<and>
   ''http://a/missing'' \<notin> set (fetched_urls (requests (start_scraping site_a new_a))) \<and>
   ''http://a/missing'' \<notin> fst ` set (fst (start_loop site_a ([(base_url new_a, 0)], new_a))) \<and>
   ''http://a/missing'' |\<notin>| visited_urls (start_scraping site_a new_a)"
  using dead_link_recorded_never_visited
    [where env = site_a and s = new_a and url = "''http://a/''" and depth = 0
       and force_scan = True and href = "''missing''" and hrefs = "[''down'']"
       and internal_links = "[]" and full_url = "''http://a/missing''"]
  by (simp add: model_defs site_a_defs fetched_urls_def)

theorem dead_link_not_visited_counterexample:
  "fst (check_link site_a new_a ''http://a/missing'') = Inr True \<and>
   (''http://a/'', ''http://a/missing'') \<in> set (deadlinks (start_scraping site_a new_a)) \<and>
   ''http://a/missing'' |\<notin>| visited_urls (start_scraping site_a new_a) \<and>
   (''http://a/ok'', ''http://a/'') \<in> set (deadlinks (start_scraping
      (site_a\<lparr>http_head := \<lambda>t url. if url = ''http://a/ok'' then Inr 200 else Inr 404\<rparr>) new_a)) \<and>
   GET ''http://a/'' \<in> set (requests (start_scraping
      (site_a\<lparr>http_head := \<lambda>t url. if url = ''http://a/ok'' then Inr 200 else Inr 404\<rparr>) new_a))"
  by (simp add: model_defs site_a_defs)

section \<open>The rescan gate\<close>

text \<open>
  Claim C3.  For a page that is not yet visited and within the depth limit,
  \<^verbatim>\<open>scrape_page\<close> sends no request (it skips the page) if and only if \<^verbatim>\<open>force_scan\<close> is
  false, the history has a row for the page, and the time now minus the time of its
  first row is less than 14 days (in microseconds); when it does not skip, it sends
  the GET request for the page.  A crawl of an object that has not visited its base
  URL and is below the page ceiling sends the GET request for the base URL, whatever
  the history says.
\<close>

theorem rescan_gate:
  "(url |\<notin>| visited_urls s \<and> depth \<le> max_depth s \<longrightarrow>
      (requests (snd (scrape_page env s url depth force_scan)) = requests s \<longleftrightarrow>
         \<not> force_scan \<and>
         (\<exists>last_scanned. map_of (history_df s) url = Some last_scanned \<and>
            now env (clock s) - last_scanned < 14 * 86400 * 1000000))) \<and>
   (url |\<notin>| visited_urls s \<and> depth \<le> max_depth s \<and>
    requests (snd (scrape_page env s url depth force_scan)) \<noteq> requests s \<longrightarrow>
      GET url \<in> set (requests (snd (scrape_page env s url depth force_scan)))) \<and>
   (base_url s |\<notin>| visited_urls s \<and> fcard (visited_urls s) < max_pages s \<longrightarrow>
      GET (base_url s) \<in> set (requests (start_scraping env s)))"
  using scrape_page_skips_iff [of url s depth env force_scan] seed_fetched [of s env]
  by (auto simp: scanned_recently_iff rescan_window_def)

theorem rescan_gate_witness:
  "''http://a/ok'' |\<notin>| visited_urls old_a \<and> 1 \<le> max_depth old_a \<and>
   map_of (history_df old_a) ''http://a/ok'' = Some (15 * 86400000000) \<and>
   now site_a (clock old_a) - 15 * 86400000000 < 14 * 86400 * 1000000 \<and>
   requests (snd (scrape_page site_a old_a ''http://a/ok'' 1 False)) = requests old_a \<and>
   map_of (history_df old_a) ''http://a/down'' = Some 0 \<and>
   \<not> now site_a (clock old_a) - 0 < 14 * 86400 * 1000000 \<and>
   GET ''http://a/down'' \<in> set (requests (snd (scrape_page site_a old_a ''http://a/down'' 1 False))) \<and>
   GET ''http://a/ok'' \<in> set (requests (snd (scrape_page site_a old_a ''http://a/ok'' 1 True))) \<and>
   base_url old_a |\<notin>| visited_urls old_a \<and> fcard (visited_urls old_a) < max_pages old_a \<and>
   map_of (history_df old_a) (base_url old_a) = Some (20 * 86400000000) \<and>
   GET (base_url old_a) \<in> set (requests (start_scraping site_a old_a)) \<and>
   fetched_urls (requests (start_scraping site_a old_a)) = [''http://a/'', ''http://a/down'']"
  using rescan_gate [of "''http://a/ok''" old_a 1 site_a False]
    rescan_gate [of "''http://a/down''" old_a 1 site_a False]
    rescan_gate [of "''http://a/ok''" old_a 1 site_a True]
  by (simp add: model_defs site_a_defs old_a_def fetched_urls_def)

section \<open>When the history is updated\<close>

text \<open>
  Claim C5, as amended.  A call of \<^verbatim>\<open>scrape_page\<close> logs at most one error.  When it
  has sent requests (the page passed the rescan gate and was fetched) and has logged no
  error, it has called \<^verbatim>\<open>update_history\<close> once, as its last step, on a history that was
  still the one it started with, and the history then holds for the page the time read
  by that call.  When it has sent no request (the entry was dropped, or the page was
  skipped by the gate), or has logged an error (the GET request, or the handling of a
  link, raised), the history and its file are as they were: \<^verbatim>\<open>update_history\<close> is not
  called on a failure.  On the small site the page \<^verbatim>\<open>down\<close> is fetched, the GET request
  raises, and the history has no row for it.
\<close>

theorem history_updated_after_complete_scan:
  assumes "scrape_page env s url depth force_scan = (ls, s')"
  shows "(logger s' = logger s \<or> logger s' = logger s @ [ErrorScanning url]) \<and>
         (requests s' \<noteq> requests s \<and> logger s' = logger s \<longrightarrow>
            (\<exists>s2. s' = update_history env s2 url \<and> history_df s2 = history_df s \<and>
                  history_file s2 = history_file s) \<and>
            map_of (history_df s') url = Some (now env (clock s' - 1))) \<and>
         (requests s' = requests s \<or> logger s' \<noteq> logger s \<longrightarrow>
            history_df s' = history_df s \<and> history_file s' = history_file s)"
  using assms
proof (cases rule: scrape_page_cases)
  case dropped
  then show ?thesis by simp
next
  case (skipped s1)
  have "requests s' = requests s" "logger s' = logger s" "history_df s' = history_df s"
    "history_file s' = history_file s"
    by (simp_all add: scanned_recently_fields [OF skipped(4)] skipped(3))
  then show ?thesis by simp
next
  case (fetched s1 s2)
  define s3 where "s3 = update_progress s2 (Scanning url depth)"
  have s3: "logger s3 = logger s" "history_df s3 = history_df s"
    "history_file s3 = history_file s"
    by (simp_all add: s3_def update_progress_fields scanned_recently_fields [OF fetched(4)]
          fetched(3))
  from fetched(5) [folded s3_def] obtain checked where
    "requests s' = requests s3 @ GET url # map HEAD checked"
    by (cases rule: fetch_and_scan_effect) blast
  then have sent: "requests s' \<noteq> requests s"
    by (simp add: s3_def update_progress_fields scanned_recently_fields [OF fetched(4)]
          fetched(3))
  from fetch_and_scan_history [OF fetched(5) [folded s3_def]] show ?thesis
  proof
    assume a: "logger s' = logger s3 \<and>
      (\<exists>s2. s' = update_history env s2 url \<and> history_df s2 = history_df s3 \<and>
            history_file s2 = history_file s3)"
    then obtain t where t: "s' = update_history env t url" "history_df t = history_df s3"
      "history_file t = history_file s3"
      by blast
    have "map_of (history_df s') url = Some (now env (clock s' - 1))"
      by (simp add: t(1) update_history_row)
    with a t sent show ?thesis by (auto simp: s3)
  next
    assume "logger s' = logger s3 @ [ErrorScanning url] \<and> ls = [] \<and>
          history_df s' = history_df s3 \<and> history_file s' = history_file s3"
    then show ?thesis by (simp add: s3)
  qed
qed

theorem history_updated_after_complete_scan_witness:
  "scrape_page site_a new_a ''http://a/ok'' 1 False
     = (fst (scrape_page site_a new_a ''http://a/ok'' 1 False),
        snd (scrape_page site_a new_a ''http://a/ok'' 1 False)) \<and>
   requests (snd (scrape_page site_a new_a ''http://a/ok'' 1 False)) \<noteq> requests new_a \<and>
   logger (snd (scrape_page site_a new_a ''http://a/ok'' 1 False)) = logger new_a \<and>
   history_df (snd (scrape_page site_a new_a ''http://a/ok'' 1 False))
     = [(''http://a/ok'', 20 * 86400000000 + 2)] \<and>
   map_of (history_df (snd (scrape_page site_a new_a ''http://a/ok'' 1 False))) ''http://a/ok''
     = Some (now site_a (clock (snd (scrape_page site_a new_a ''http://a/ok'' 1 False)) - 1)) \<and>
   requests (snd (scrape_page site_a old_a ''http://a/ok'' 1 False)) = requests old_a \<and>
   history_df (snd (scrape_page site_a old_a ''http://a/ok'' 1 False)) = history_df old_a"
  using history_updated_after_complete_scan [of site_a new_a "''http://a/ok''" 1 False
      "fst (scrape_page site_a new_a ''http://a/ok'' 1 False)"
      "snd (scrape_page site_a new_a ''http://a/ok'' 1 False)"]
    history_updated_after_complete_scan [of site_a old_a "''http://a/ok''" 1 False
      "fst (scrape_page site_a old_a ''http://a/ok'' 1 False)"
      "snd (scrape_page site_a old_a ''http://a/ok'' 1 False)"]
  by (simp add: model_defs site_a_defs old_a_def)

theorem history_not_updated_on_failure_counterexample:
  "requests (snd (scrape_page site_a new_a ''http://a/down'' 1 False)) = [GET ''http://a/down''] \<and>
   http_get site_a 0 ''http://a/down'' = Inl RequestException \<and>
   history_df (snd (scrape_page site_a new_a ''http://a/down'' 1 False)) = [] \<and>
   history_file (snd (scrape_page site_a new_a ''http://a/down'' 1 False)) = [] \<and>
   GET ''http://a/down'' \<in> set (requests (start_scraping site_a new_a)) \<and>
   map_of (history_df (start_scraping site_a new_a)) ''http://a/down'' = None"
  by (simp add: model_defs site_a_defs)

section \<open>A page that cannot be fetched\<close>

text \<open>
  Claim C7.  When a page that is not yet visited, within the depth limit and not
  skipped by the rescan gate is fetched and the GET request raises, \<^verbatim>\<open>scrape_page\<close>
  returns the empty list of links, the page is a visited page, the error is logged, and
  no exception leaves \<^verbatim>\<open>scrape_page\<close>: the batch goes on with its next entry.
\<close>

theorem fetch_error_recovered:
  assumes "url |\<notin>| visited_urls s" and "depth \<le> max_depth s"
    and "\<not> fst (scanned_recently env s url force_scan)"
    and "http_get env (clock (snd (scanned_recently env s url force_scan))) url = Inl e"
  shows "fst (scrape_page env s url depth force_scan) = [] \<and>
         url |\<in>| visited_urls (snd (scrape_page env s url depth force_scan)) \<and>
         logger (snd (scrape_page env s url depth force_scan)) = logger s @ [ErrorScanning url] \<and>
         (force_scan = (url = base_url s) \<longrightarrow>
            run_batch env ((url, depth) # batch) s
              = run_batch env batch (snd (scrape_page env s url depth force_scan)))"
proof -
  obtain b s2 where sr: "scanned_recently env s url force_scan = (b, s2)"
    by (cases "scanned_recently env s url force_scan")
  with assms(3) have b: "b = False" by simp
  from scanned_recently_fields [OF sr]
  have f: "visited_urls s2 = visited_urls s" "logger s2 = logger s" by simp_all
  from assms(4) sr have g: "http_get env (clock s2) url = Inl e" by simp
  have r: "fst (scrape_page env s url depth force_scan) = []"
    "url |\<in>| visited_urls (snd (scrape_page env s url depth force_scan))"
    "logger (snd (scrape_page env s url depth force_scan)) = logger s @ [ErrorScanning url]"
    using assms(1,2) g
    by (simp_all add: scrape_page_def Let_def scanned_recently_other_fields sr b
          fetch_and_scan_def update_progress_def f)
  then have "force_scan = (url = base_url s) \<longrightarrow>
            run_batch env ((url, depth) # batch) s
              = run_batch env batch (snd (scrape_page env s url depth force_scan))"
    by (auto simp: split_beta Let_def)
  with r show ?thesis by simp
qed

theorem fetch_error_recovered_witness:
  "''http://a/down'' |\<notin>| visited_urls new_a \<and> 1 \<le> max_depth new_a \<and>
   \<not> fst (scanned_recently site_a new_a ''http://a/down'' False) \<and>
   http_get site_a (clock (snd (scanned_recently site_a new_a ''http://a/down'' False)))
      ''http://a/down'' = Inl RequestException \<and>
   fst (scrape_page site_a new_a ''http://a/down'' 1 False) = [] \<and>
   ''http://a/down'' |\<in>| visited_urls (snd (scrape_page site_a new_a ''http://a/down'' 1 False)) \<and>
   logger (snd (scrape_page site_a new_a ''http://a/down'' 1 False))
      = logger new_a @ [ErrorScanning ''http://a/down''] \<and>
   run_batch site_a [(''http://a/down'', 1), (''http://a/ok'', 1)] new_a
      = run_batch site_a [(''http://a/ok'', 1)]
          (snd (scrape_page site_a new_a ''http://a/down'' 1 False))"
  using fetch_error_recovered [of "''http://a/down''" new_a 1 site_a False RequestException
      "[(''http://a/ok'', 1)]"]
  by (simp add: model_defs site_a_defs)

end
